theory Spec2Isabelle
  imports Main "HOL-Library.Sublist"
begin

text \<open>
  A model of \<^verbatim>\<open>core_application\<close> (\<^verbatim>\<open>src/core_application.cpp\<close>): a background queue
  drained by one worker thread, a main queue drained by \<^verbatim>\<open>runMainTasks\<close> on the main
  context, and a destructor that stops and joins the worker.

  The threads run interleaved. A step of a thread is the code between two of its
  synchronisation operations: locking a mutex is a step of its own, which a thread can
  take only while the mutex is free; what the thread then does with the mutex held, up
  to and including the unlock, is the next step; a \<^verbatim>\<open>notify_one\<close> and a pump request
  are steps. The members of the class are touched only with the matching mutex held,
  so steps of different threads do not interfere within a step.

  The pump is outside the class: \<^verbatim>\<open>MAIN_THREAD_ASYNC_EM_ASM\<close> is taken to post a request
  that is honoured later, on the main context, by a call of \<^verbatim>\<open>runMainTasks\<close>.
\<close>

section \<open>Tasks and task bodies\<close>

text \<open>
  A queue element is a \<^verbatim>\<open>std::function<void()>\<close>: either the empty function object
  (\<open>Null\<close>, which converts to \<open>false\<close>) or a callable. A callable is named by a number;
  what it does to the scheduler when it is called is given by a program table, so a body
  may submit any task, itself included. The only scheduler operations a body performs are
  \<^verbatim>\<open>runOnBgThread\<close> and \<^verbatim>\<open>runOnMain\<close>, as in the lambdas of \<^verbatim>\<open>runTask1\<close> .. \<^verbatim>\<open>runTask5\<close>;
  console output is not modelled.
\<close>

datatype task = Null | Fn nat

datatype call = RunOnBgThread task | RunOnMain task

type_synonym program = "nat \<Rightarrow> call list"

definition callable :: "task \<Rightarrow> bool" where
  "callable f = (f \<noteq> Null)"

section \<open>Threads and their control points\<close>

text \<open>
  \<open>Worker\<close> is the thread started by the member initialiser of \<^verbatim>\<open>_thread\<close>; \<open>MainCtx\<close> is
  the main context on which the pump calls \<^verbatim>\<open>runMainTasks\<close>; \<open>Caller n\<close> are the threads
  that call \<^verbatim>\<open>runOnBgThread\<close> and \<^verbatim>\<open>runOnMain\<close> from outside a task; \<open>Destroyer\<close> is the
  thread that runs \<^verbatim>\<open>~core_application\<close>.
\<close>

datatype tid = Worker | MainCtx | Caller nat | Destroyer

text \<open>
  Control points of a thread that is not the destroyer.
  \<^item> \<open>Idle\<close>: outside the scheduler's code (the worker's loop has exited;
    \<^verbatim>\<open>runMainTasks\<close> is not running; a caller is between calls).
  \<^item> \<open>Dequeue\<close>: entering \<^verbatim>\<open>dequeueBg\<close> (worker) or \<^verbatim>\<open>dequeueMain\<close> (main context),
    about to lock the queue's mutex.
  \<^item> \<open>Locked\<close>: inside the dequeue function, holding the queue's mutex.
  \<^item> \<open>Waiting\<close>: the worker blocked in \<^verbatim>\<open>_condition.wait\<close>, the mutex released.
  \<^item> \<open>Body cs\<close>: running code that still has the calls \<open>cs\<close> to make.
  \<^item> \<open>Emplace c cs\<close>: inside call \<open>c\<close>, holding that queue's mutex, before
    \<^verbatim>\<open>emplace_back\<close>.
  \<^item> \<open>Notify cs\<close>: in \<^verbatim>\<open>runOnBgThread\<close> after the unlock, before \<^verbatim>\<open>notify_one\<close>.
  \<^item> \<open>Request cs\<close>: in \<^verbatim>\<open>runOnMain\<close> after the unlock, before the pump request.
\<close>

datatype pc =
    Idle
  | Dequeue
  | Locked
  | Waiting
  | Body "call list"
  | Emplace call "call list"
  | Notify "call list"
  | Request "call list"

text \<open>Control points of the destructor, one per statement of its body.\<close>

datatype dpc = NotStarted | DLock | DSetDone | DNotify | DJoin | Destroyed

section \<open>The scheduler state\<close>

text \<open>
  The first six fields are the members of \<^verbatim>\<open>core_application\<close> (\<open>doneFlag\<close> is \<^verbatim>\<open>_done\<close>;
  a mutex is its owner, if any). \<open>pcs\<close> and \<open>destructor\<close> are the control points of the
  threads. The remaining fields only record what happened: every element in the order of
  its \<^verbatim>\<open>emplace_back\<close>, every element in the order of its \<^verbatim>\<open>pop_front\<close>, the number of
  task bodies that have returned, the number of pump requests issued and the number of
  them the pump has not honoured yet.
\<close>

record state =
  bgTasks :: "task list"
  doneFlag :: bool
  mainTasks :: "task list"
  scheduledToRunOnMain :: bool
  mutex :: "tid option"
  mainMutex :: "tid option"
  pcs :: "tid \<Rightarrow> pc"
  destructor :: dpc
  bgPushed :: "task list"
  bgPopped :: "task list"
  bgFinished :: nat
  mainPushed :: "task list"
  mainPopped :: "task list"
  mainFinished :: nat
  pumpRequests :: nat
  pumpPending :: nat

definition init :: state where
  "init = \<lparr> bgTasks = [], doneFlag = False, mainTasks = [],
      scheduledToRunOnMain = False, mutex = None, mainMutex = None,
      pcs = (\<lambda>t. Idle)(Worker := Dequeue), destructor = NotStarted,
      bgPushed = [], bgPopped = [], bgFinished = 0,
      mainPushed = [], mainPopped = [], mainFinished = 0,
      pumpRequests = 0, pumpPending = 0 \<rparr>"

text \<open>A popped callable is called at once by the loop that popped it.\<close>

definition bgExecuted :: "state \<Rightarrow> task list" where
  "bgExecuted s = filter callable (bgPopped s)"

definition mainExecuted :: "state \<Rightarrow> task list" where
  "mainExecuted s = filter callable (mainPopped s)"

definition setpc :: "tid \<Rightarrow> pc \<Rightarrow> state \<Rightarrow> state" where
  "setpc t p s = s\<lparr>pcs := (pcs s)(t := p)\<rparr>"

section \<open>The critical sections\<close>

text \<open>
  \<^verbatim>\<open>dequeueBg\<close> with \<^verbatim>\<open>_mutex\<close> held: \<open>None\<close> when the wait predicate
  \<^verbatim>\<open>!_bgTasks.empty() || _done\<close> is false; the empty function when the queue is empty;
  otherwise the front element, popped.
\<close>

definition dequeueBg :: "state \<Rightarrow> (task \<times> state) option" where
  "dequeueBg s =
     (if \<not> (bgTasks s \<noteq> [] \<or> doneFlag s) then None
      else if bgTasks s = [] then Some (Null, s)
      else Some (hd (bgTasks s),
             s\<lparr>bgTasks := tl (bgTasks s), bgPopped := bgPopped s @ [hd (bgTasks s)]\<rparr>))"

text \<open>\<^verbatim>\<open>dequeueMain\<close> with \<^verbatim>\<open>_mainMutex\<close> held.\<close>

definition dequeueMain :: "state \<Rightarrow> task \<times> state" where
  "dequeueMain s =
     (if mainTasks s = [] then (Null, s\<lparr>scheduledToRunOnMain := False\<rparr>)
      else (hd (mainTasks s),
             s\<lparr>mainTasks := tl (mainTasks s), mainPopped := mainPopped s @ [hd (mainTasks s)]\<rparr>))"

text \<open>
  The loop \<^verbatim>\<open>for (auto task = dequeue(); task; task = dequeue()) task();\<close> after a dequeue
  returned \<open>f\<close>: an empty function ends the loop, a callable is called.
\<close>

fun loopTest :: "program \<Rightarrow> task \<Rightarrow> pc" where
  "loopTest body Null = Idle"
| "loopTest body (Fn k) = Body (body k)"

text \<open>\<^verbatim>\<open>notify_one\<close>: only the worker ever waits on \<^verbatim>\<open>_condition\<close>.\<close>

definition notify_one :: "state \<Rightarrow> state" where
  "notify_one s = (if pcs s Worker = Waiting then setpc Worker Dequeue s else s)"

text \<open>The critical sections of \<^verbatim>\<open>runOnBgThread\<close> and \<^verbatim>\<open>runOnMain\<close>, before the unlock.\<close>

definition emplaceBg :: "task \<Rightarrow> state \<Rightarrow> state" where
  "emplaceBg f s = s\<lparr>bgTasks := bgTasks s @ [f], bgPushed := bgPushed s @ [f]\<rparr>"

definition emplaceMain :: "task \<Rightarrow> state \<Rightarrow> state" where
  "emplaceMain f s = s\<lparr>mainTasks := mainTasks s @ [f], mainPushed := mainPushed s @ [f]\<rparr>"

definition requestPump :: "state \<Rightarrow> state" where
  "requestPump s = s\<lparr>pumpRequests := Suc (pumpRequests s), pumpPending := Suc (pumpPending s)\<rparr>"

section \<open>Whole calls, when no other thread interleaves\<close>


definition runOnMain :: "task \<Rightarrow> state \<Rightarrow> state" where
  "runOnMain f s =
     (let s1 = emplaceMain f s in
      if scheduledToRunOnMain s1 then s1
      else requestPump (s1\<lparr>scheduledToRunOnMain := True\<rparr>))"

section \<open>Atomic steps of the threads\<close>

text \<open>What a thread does when the code it was running returns.\<close>

fun finish :: "tid \<Rightarrow> state \<Rightarrow> state" where
  "finish Worker s = setpc Worker Dequeue (s\<lparr>bgFinished := Suc (bgFinished s)\<rparr>)"
| "finish MainCtx s = setpc MainCtx Dequeue (s\<lparr>mainFinished := Suc (mainFinished s)\<rparr>)"
| "finish t s = setpc t Idle s"

text \<open>Locking at the start of a dequeue function; a held mutex blocks the thread.\<close>

fun lockStep :: "tid \<Rightarrow> state \<Rightarrow> state option" where
  "lockStep Worker s =
     (if mutex s = None then Some (setpc Worker Locked (s\<lparr>mutex := Some Worker\<rparr>)) else None)"
| "lockStep MainCtx s =
     (if mainMutex s = None then Some (setpc MainCtx Locked (s\<lparr>mainMutex := Some MainCtx\<rparr>))
      else None)"
| "lockStep t s = None"

text \<open>The rest of a dequeue function, the unlock at its return, and the loop's test.\<close>

fun dequeueStep :: "program \<Rightarrow> tid \<Rightarrow> state \<Rightarrow> state option" where
  "dequeueStep body Worker s =
     (case dequeueBg s of
        None \<Rightarrow> Some (setpc Worker Waiting (s\<lparr>mutex := None\<rparr>))
      | Some (f, s') \<Rightarrow> Some (setpc Worker (loopTest body f) (s'\<lparr>mutex := None\<rparr>)))"
| "dequeueStep body MainCtx s =
     (case dequeueMain s of
        (f, s') \<Rightarrow> Some (setpc MainCtx (loopTest body f) (s'\<lparr>mainMutex := None\<rparr>)))"
| "dequeueStep body t s = None"

fun threadStep :: "program \<Rightarrow> tid \<Rightarrow> pc \<Rightarrow> state \<Rightarrow> state option" where
  "threadStep body t Idle s = None"
| "threadStep body t Waiting s = None"
| "threadStep body t Dequeue s = lockStep t s"
| "threadStep body t Locked s = dequeueStep body t s"
| "threadStep body t (Body []) s = Some (finish t s)"
| "threadStep body t (Body (RunOnBgThread f # cs)) s =
     (if mutex s = None
      then Some (setpc t (Emplace (RunOnBgThread f) cs) (s\<lparr>mutex := Some t\<rparr>))
      else None)"
| "threadStep body t (Body (RunOnMain f # cs)) s =
     (if mainMutex s = None
      then Some (setpc t (Emplace (RunOnMain f) cs) (s\<lparr>mainMutex := Some t\<rparr>))
      else None)"
| "threadStep body t (Emplace (RunOnBgThread f) cs) s =
     Some (setpc t (Notify cs) ((emplaceBg f s)\<lparr>mutex := None\<rparr>))"
| "threadStep body t (Emplace (RunOnMain f) cs) s =
     (let s1 = emplaceMain f s in
      if scheduledToRunOnMain s1 then Some (setpc t (Body cs) (s1\<lparr>mainMutex := None\<rparr>))
      else Some (setpc t (Request cs)
                   (s1\<lparr>scheduledToRunOnMain := True, mainMutex := None\<rparr>)))"
| "threadStep body t (Notify cs) s = Some (setpc t (Body cs) (notify_one s))"
| "threadStep body t (Request cs) s = Some (setpc t (Body cs) (requestPump s))"

text \<open>
  The destructor: lock, \<^verbatim>\<open>_done = true\<close>, unlock; \<^verbatim>\<open>notify_one\<close>; \<^verbatim>\<open>join\<close>, which
  returns only when the worker's thread function has returned; then the members are
  destroyed.
\<close>

fun destructorStep :: "dpc \<Rightarrow> state \<Rightarrow> state option" where
  "destructorStep NotStarted s = None"
| "destructorStep DLock s =
     (if mutex s = None then Some (s\<lparr>mutex := Some Destroyer, destructor := DSetDone\<rparr>)
      else None)"
| "destructorStep DSetDone s =
     Some (s\<lparr>doneFlag := True, mutex := None, destructor := DNotify\<rparr>)"
| "destructorStep DNotify s = Some ((notify_one s)\<lparr>destructor := DJoin\<rparr>)"
| "destructorStep DJoin s =
     (if pcs s Worker = Idle then Some (s\<lparr>destructor := Destroyed\<rparr>) else None)"
| "destructorStep Destroyed s = None"

section \<open>Executions\<close>

text \<open>
  An event is one atomic step of one thread, or a move of the environment: a caller
  thread enters a call; the pump honours a pending request by calling \<^verbatim>\<open>runMainTasks\<close>
  (\<open>Pump\<close>), or \<^verbatim>\<open>runMainTasks\<close> is called with no regard to requests (\<open>Stray\<close>); a thread
  enters the destructor; the waiting worker wakes up spuriously. \<open>None\<close> means the event
  cannot happen in the state (the thread is blocked or elsewhere). Nothing stops the
  other threads once the destructor has returned: what they then do to the destroyed
  object is part of the model, so that it can be stated.
\<close>

datatype event = Step tid | Invoke nat call | Pump | Stray | Destroy | Wakeup

fun step :: "program \<Rightarrow> event \<Rightarrow> state \<Rightarrow> state option" where
  "step body (Step Destroyer) s = destructorStep (destructor s) s"
| "step body (Step t) s = threadStep body t (pcs s t) s"
| "step body (Invoke n c) s =
     (if pcs s (Caller n) = Idle then Some (setpc (Caller n) (Body [c]) s) else None)"
| "step body Pump s =
     (if pcs s MainCtx = Idle \<and> 0 < pumpPending s
      then Some (setpc MainCtx Dequeue (s\<lparr>pumpPending := pumpPending s - 1\<rparr>))
      else None)"
| "step body Stray s =
     (if pcs s MainCtx = Idle then Some (setpc MainCtx Dequeue s) else None)"
| "step body Destroy s =
     (if destructor s = NotStarted then Some (s\<lparr>destructor := DLock\<rparr>) else None)"
| "step body Wakeup s =
     (if pcs s Worker = Waiting then Some (setpc Worker Dequeue s) else None)"

fun exec :: "program \<Rightarrow> event list \<Rightarrow> state \<Rightarrow> state option" where
  "exec body [] s = Some s"
| "exec body (e # es) s =
     (case step body e s of None \<Rightarrow> None | Some s' \<Rightarrow> exec body es s')"

inductive reach :: "program \<Rightarrow> state \<Rightarrow> bool" for body :: program where
  reach_init: "reach body init"
| reach_step: "reach body s \<Longrightarrow> step body e s = Some s' \<Longrightarrow> reach body s'"

text \<open>Short names for the steps of the four kinds of thread.\<close>

abbreviation Wk :: event where "Wk \<equiv> Step Worker"

abbreviation Mn :: event where "Mn \<equiv> Step MainCtx"

abbreviation Cl :: "nat \<Rightarrow> event" where "Cl n \<equiv> Step (Caller n)"

abbreviation Ds :: event where "Ds \<equiv> Step Destroyer"

text \<open>
  The bodies of \<^verbatim>\<open>runTask5\<close>: a background task (0) submits a main task (1), which
  submits a background task (2), which submits a main task (3). Every other number is
  a task that submits nothing.
\<close>

definition task5 :: program where
  "task5 k = (if k = 0 then [RunOnMain (Fn 1)]
              else if k = 1 then [RunOnBgThread (Fn 2)]
              else if k = 2 then [RunOnMain (Fn 3)]
              else [])"


section \<open>Invariants\<close>

text \<open>
  \<open>inBg t p\<close>: control point \<open>p\<close> of thread \<open>t\<close> lies between a lock and the matching
  unlock of \<^verbatim>\<open>_mutex\<close>; \<open>inMain\<close> likewise for \<^verbatim>\<open>_mainMutex\<close>. \<open>wellPlaced\<close>: only the
  worker runs \<^verbatim>\<open>dequeueBg\<close> and waits, only the main context runs \<^verbatim>\<open>dequeueMain\<close>.
\<close>

fun inBg :: "tid \<Rightarrow> pc \<Rightarrow> bool" where
  "inBg Worker Locked = True"
| "inBg t (Emplace (RunOnBgThread f) cs) = True"
| "inBg t p = False"

fun inMain :: "tid \<Rightarrow> pc \<Rightarrow> bool" where
  "inMain MainCtx Locked = True"
| "inMain t (Emplace (RunOnMain f) cs) = True"
| "inMain t p = False"

fun wellPlaced :: "tid \<Rightarrow> pc \<Rightarrow> bool" where
  "wellPlaced Worker p = True"
| "wellPlaced MainCtx p = (p \<noteq> Waiting)"
| "wellPlaced (Caller n) p = (p \<noteq> Dequeue \<and> p \<noteq> Locked \<and> p \<noteq> Waiting)"
| "wellPlaced Destroyer p = (p = Idle)"

text \<open>
  A thread owns a mutex exactly when it is between the lock and the unlock in the code.
\<close>

definition threadInv :: "state \<Rightarrow> tid \<Rightarrow> bool" where
  "threadInv s t =
     (((mutex s = Some t) =
         (inBg t (pcs s t) \<or> (t = Destroyer \<and> destructor s = DSetDone))) \<and>
      ((mainMutex s = Some t) = inMain t (pcs s t)) \<and>
      wellPlaced t (pcs s t))"

definition lockInv :: "state \<Rightarrow> bool" where
  "lockInv s = (\<forall>t. threadInv s t)"

text \<open>\<open>running p\<close>: at control point \<open>p\<close> the thread is inside a task body.\<close>

fun running :: "pc \<Rightarrow> bool" where
  "running (Body cs) = True"
| "running (Emplace c cs) = True"
| "running (Notify cs) = True"
| "running (Request cs) = True"
| "running p = False"

text \<open>Each queue holds what was pushed and not yet popped, in push order.\<close>

definition fifoInv :: "state \<Rightarrow> bool" where
  "fifoInv s = (bgPushed s = bgPopped s @ bgTasks s \<and> mainPushed s = mainPopped s @ mainTasks s)"

text \<open>
  The worker: every task it executed has returned, but the one it is running; once it
  has popped an empty function it is outside its loop; it is outside its loop only if
  \<^verbatim>\<open>_done\<close> is set or it has popped an empty function; \<^verbatim>\<open>_done\<close> is set exactly from
  the second statement of the destructor on; the destructor returns only after the
  worker has exited.
\<close>

definition workerInv :: "state \<Rightarrow> bool" where
  "workerInv s =
     (length (bgExecuted s) = (if running (pcs s Worker) then Suc (bgFinished s) else bgFinished s) \<and>
      (Null \<in> set (bgPopped s) \<longrightarrow> pcs s Worker = Idle) \<and>
      (pcs s Worker = Idle \<longrightarrow> doneFlag s \<or> Null \<in> set (bgPopped s)) \<and>
      doneFlag s = (destructor s = DNotify \<or> destructor s = DJoin \<or> destructor s = Destroyed) \<and>
      (destructor s = Destroyed \<longrightarrow> pcs s Worker = Idle))"

text \<open>
  The main context: every task it executed has returned, but the one it is running; a
  non-empty main queue has its flag set; no more requests are pending than were issued.
\<close>

definition mainInv :: "state \<Rightarrow> bool" where
  "mainInv s =
     (length (mainExecuted s) =
        (if running (pcs s MainCtx) then Suc (mainFinished s) else mainFinished s) \<and>
      (mainTasks s \<noteq> [] \<longrightarrow> scheduledToRunOnMain s) \<and>
      pumpPending s \<le> pumpRequests s)"

text \<open>The threads that are about to request the pump, and those about to notify.\<close>

fun isRequest :: "pc \<Rightarrow> bool" where
  "isRequest (Request cs) = True"
| "isRequest p = False"

fun isNotify :: "pc \<Rightarrow> bool" where
  "isNotify (Notify cs) = True"
| "isNotify p = False"

definition requesters :: "state \<Rightarrow> tid set" where
  "requesters s = {t. isRequest (pcs s t)}"

definition notifiers :: "state \<Rightarrow> tid set" where
  "notifiers s = {t. isNotify (pcs s t)}"

text \<open>
  While the flag is set a dispatch is outstanding (a request is being issued or is
  pending, or \<^verbatim>\<open>runMainTasks\<close> is running), unless an empty function was popped.
\<close>

definition dispatchInv :: "state \<Rightarrow> bool" where
  "dispatchInv s =
     (scheduledToRunOnMain s \<longrightarrow>
        requesters s \<noteq> {} \<or> 0 < pumpPending s \<or> pcs s MainCtx \<noteq> Idle \<or>
        Null \<in> set (mainPopped s))"

text \<open>
  No wake-up is lost: while the worker waits although its predicate holds, some thread
  is about to call \<^verbatim>\<open>notify_one\<close>.
\<close>

definition wakeInv :: "state \<Rightarrow> bool" where
  "wakeInv s =
     (pcs s Worker = Waiting \<and> (bgTasks s \<noteq> [] \<or> doneFlag s) \<longrightarrow>
        notifiers s \<noteq> {} \<or> destructor s = DNotify)"

definition inv :: "state \<Rightarrow> bool" where
  "inv s = (lockInv s \<and> fifoInv s \<and> workerInv s \<and> mainInv s \<and> dispatchInv s \<and> wakeInv s)"

text \<open>
  \<open>wedged\<close>: the flag is set, yet no request is being issued or pending and
  \<^verbatim>\<open>runMainTasks\<close> is not running.
\<close>

definition wedged :: "state \<Rightarrow> bool" where
  "wedged s = (pcs s MainCtx = Idle \<and> scheduledToRunOnMain s \<and> pumpPending s = 0 \<and>
               requesters s = {})"

text \<open>
  In runs where \<^verbatim>\<open>runMainTasks\<close> is called only for pending requests, at most one
  dispatch is outstanding: with the flag set, at most one of "one thread is requesting",
  "one request is pending" and "\<^verbatim>\<open>runMainTasks\<close> is running" holds, and none of them only
  after an empty function was popped; with the flag clear none holds.
\<close>

definition oneDispatch :: "state \<Rightarrow> bool" where
  "oneDispatch s =
     (if scheduledToRunOnMain s
      then (pcs s MainCtx \<noteq> Idle \<longrightarrow> pumpPending s = 0 \<and> requesters s = {}) \<and>
           (0 < pumpPending s \<longrightarrow> pumpPending s = 1 \<and> requesters s = {}) \<and>
           (\<forall>t u. t \<in> requesters s \<and> u \<in> requesters s \<longrightarrow> t = u) \<and>
           (pcs s MainCtx = Idle \<and> pumpPending s = 0 \<and> requesters s = {} \<longrightarrow>
              Null \<in> set (mainPopped s))
      else pcs s MainCtx = Idle \<and> pumpPending s = 0 \<and> requesters s = {})"

text \<open>
  For runs with a single submitting thread: the background submissions the callers have
  entered, in order; the control points of the other threads never hold a background
  submission; the submitter is inside at most one call, whose task (\<open>inflight\<close>), if it
  is a background submission that has not been pushed yet, is the last one entered.
\<close>

fun bgInvoked :: "event list \<Rightarrow> task list" where
  "bgInvoked [] = []"
| "bgInvoked (Invoke n (RunOnBgThread f) # es) = f # bgInvoked es"
| "bgInvoked (e # es) = bgInvoked es"

fun isBg :: "call \<Rightarrow> bool" where
  "isBg (RunOnBgThread f) = True"
| "isBg (RunOnMain f) = False"

fun noBg :: "pc \<Rightarrow> bool" where
  "noBg (Body cs) = list_all (\<lambda>c. \<not> isBg c) cs"
| "noBg (Emplace c cs) = (\<not> isBg c \<and> list_all (\<lambda>c. \<not> isBg c) cs)"
| "noBg (Notify cs) = False"
| "noBg (Request cs) = list_all (\<lambda>c. \<not> isBg c) cs"
| "noBg p = True"

fun inflight :: "pc \<Rightarrow> task list" where
  "inflight (Body [RunOnBgThread f]) = [f]"
| "inflight (Emplace (RunOnBgThread f) cs) = [f]"
| "inflight p = []"



section \<open>The steps, case by case\<close>

lemma threadStep_cases [consumes 1, case_names body_done lock_bg lock_main emplace_bg
    coalesced first notify request w_lock w_wait w_exit w_pop m_lock m_empty m_pop]:
  assumes "threadStep body t (pcs s t) s = Some s'"
  obtains
    (body_done) "pcs s t = Body []" "s' = finish t s"
  | (lock_bg) f cs where "pcs s t = Body (RunOnBgThread f # cs)" "mutex s = None"
      "s' = setpc t (Emplace (RunOnBgThread f) cs) (s\<lparr>mutex := Some t\<rparr>)"
  | (lock_main) f cs where "pcs s t = Body (RunOnMain f # cs)" "mainMutex s = None"
      "s' = setpc t (Emplace (RunOnMain f) cs) (s\<lparr>mainMutex := Some t\<rparr>)"
  | (emplace_bg) f cs where "pcs s t = Emplace (RunOnBgThread f) cs"
      "s' = setpc t (Notify cs) ((emplaceBg f s)\<lparr>mutex := None\<rparr>)"
  | (coalesced) f cs where "pcs s t = Emplace (RunOnMain f) cs" "scheduledToRunOnMain s"
      "s' = setpc t (Body cs) ((emplaceMain f s)\<lparr>mainMutex := None\<rparr>)"
  | (first) f cs where "pcs s t = Emplace (RunOnMain f) cs" "\<not> scheduledToRunOnMain s"
      "s' = setpc t (Request cs)
              ((emplaceMain f s)\<lparr>scheduledToRunOnMain := True, mainMutex := None\<rparr>)"
  | (notify) cs where "pcs s t = Notify cs" "s' = setpc t (Body cs) (notify_one s)"
  | (request) cs where "pcs s t = Request cs" "s' = setpc t (Body cs) (requestPump s)"
  | (w_lock) "t = Worker" "pcs s Worker = Dequeue" "mutex s = None"
      "s' = setpc Worker Locked (s\<lparr>mutex := Some Worker\<rparr>)"
  | (w_wait) "t = Worker" "pcs s Worker = Locked" "bgTasks s = []" "\<not> doneFlag s"
      "s' = setpc Worker Waiting (s\<lparr>mutex := None\<rparr>)"
  | (w_exit) "t = Worker" "pcs s Worker = Locked" "bgTasks s = []" "doneFlag s"
      "s' = setpc Worker Idle (s\<lparr>mutex := None\<rparr>)"
  | (w_pop) f q where "t = Worker" "pcs s Worker = Locked" "bgTasks s = f # q"
      "s' = setpc Worker (loopTest body f)
              (s\<lparr>bgTasks := q, bgPopped := bgPopped s @ [f], mutex := None\<rparr>)"
  | (m_lock) "t = MainCtx" "pcs s MainCtx = Dequeue" "mainMutex s = None"
      "s' = setpc MainCtx Locked (s\<lparr>mainMutex := Some MainCtx\<rparr>)"
  | (m_empty) "t = MainCtx" "pcs s MainCtx = Locked" "mainTasks s = []"
      "s' = setpc MainCtx Idle (s\<lparr>scheduledToRunOnMain := False, mainMutex := None\<rparr>)"
  | (m_pop) f q where "t = MainCtx" "pcs s MainCtx = Locked" "mainTasks s = f # q"
      "s' = setpc MainCtx (loopTest body f)
              (s\<lparr>mainTasks := q, mainPopped := mainPopped s @ [f], mainMutex := None\<rparr>)"
proof (cases "pcs s t")
  case Idle
  with assms show ?thesis by simp
next
  case Dequeue
  with assms w_lock m_lock show ?thesis
    by (cases t) (auto split: if_splits)
next
  case Locked
  show ?thesis
  proof (cases t)
    case Worker
    with Locked assms w_wait w_exit w_pop show ?thesis
      by (cases "bgTasks s") (auto simp: dequeueBg_def split: if_splits)
  next
    case MainCtx
    with Locked assms m_empty m_pop show ?thesis
      by (cases "mainTasks s") (auto simp: dequeueMain_def split: if_splits)
  qed (use Locked assms in auto)
next
  case Waiting
  with assms show ?thesis by simp
next
  case (Body cs)
  show ?thesis
  proof (cases cs)
    case Nil
    with Body assms body_done show ?thesis by simp
  next
    case (Cons c cs')
    with Body assms lock_bg lock_main show ?thesis
      by (cases c) (auto split: if_splits)
  qed
next
  case (Emplace c cs)
  with assms emplace_bg coalesced first show ?thesis
    by (cases c) (auto simp: Let_def emplaceMain_def split: if_splits)
next
  case (Notify cs)
  with assms notify show ?thesis by simp
next
  case (Request cs)
  with assms request show ?thesis by simp
qed

lemma step_cases [consumes 1, case_names body_done lock_bg lock_main emplace_bg
    coalesced first notify request w_lock w_wait w_exit w_pop m_lock m_empty m_pop
    d_lock d_set d_notify d_join invoke pump stray destroy wakeup]:
  assumes "step body e s = Some s'"
  obtains
    (body_done) t where "e = Step t" "t \<noteq> Destroyer" "pcs s t = Body []" "s' = finish t s"
  | (lock_bg) t f cs where "e = Step t" "t \<noteq> Destroyer"
      "pcs s t = Body (RunOnBgThread f # cs)" "mutex s = None"
      "s' = setpc t (Emplace (RunOnBgThread f) cs) (s\<lparr>mutex := Some t\<rparr>)"
  | (lock_main) t f cs where "e = Step t" "t \<noteq> Destroyer"
      "pcs s t = Body (RunOnMain f # cs)" "mainMutex s = None"
      "s' = setpc t (Emplace (RunOnMain f) cs) (s\<lparr>mainMutex := Some t\<rparr>)"
  | (emplace_bg) t f cs where "e = Step t" "t \<noteq> Destroyer"
      "pcs s t = Emplace (RunOnBgThread f) cs"
      "s' = setpc t (Notify cs) ((emplaceBg f s)\<lparr>mutex := None\<rparr>)"
  | (coalesced) t f cs where "e = Step t" "t \<noteq> Destroyer"
      "pcs s t = Emplace (RunOnMain f) cs" "scheduledToRunOnMain s"
      "s' = setpc t (Body cs) ((emplaceMain f s)\<lparr>mainMutex := None\<rparr>)"
  | (first) t f cs where "e = Step t" "t \<noteq> Destroyer"
      "pcs s t = Emplace (RunOnMain f) cs" "\<not> scheduledToRunOnMain s"
      "s' = setpc t (Request cs)
              ((emplaceMain f s)\<lparr>scheduledToRunOnMain := True, mainMutex := None\<rparr>)"
  | (notify) t cs where "e = Step t" "t \<noteq> Destroyer" "pcs s t = Notify cs"
      "s' = setpc t (Body cs) (notify_one s)"
  | (request) t cs where "e = Step t" "t \<noteq> Destroyer" "pcs s t = Request cs"
      "s' = setpc t (Body cs) (requestPump s)"
  | (w_lock) "e = Step Worker" "pcs s Worker = Dequeue" "mutex s = None"
      "s' = setpc Worker Locked (s\<lparr>mutex := Some Worker\<rparr>)"
  | (w_wait) "e = Step Worker" "pcs s Worker = Locked" "bgTasks s = []" "\<not> doneFlag s"
      "s' = setpc Worker Waiting (s\<lparr>mutex := None\<rparr>)"
  | (w_exit) "e = Step Worker" "pcs s Worker = Locked" "bgTasks s = []" "doneFlag s"
      "s' = setpc Worker Idle (s\<lparr>mutex := None\<rparr>)"
  | (w_pop) f q where "e = Step Worker" "pcs s Worker = Locked" "bgTasks s = f # q"
      "s' = setpc Worker (loopTest body f)
              (s\<lparr>bgTasks := q, bgPopped := bgPopped s @ [f], mutex := None\<rparr>)"
  | (m_lock) "e = Step MainCtx" "pcs s MainCtx = Dequeue" "mainMutex s = None"
      "s' = setpc MainCtx Locked (s\<lparr>mainMutex := Some MainCtx\<rparr>)"
  | (m_empty) "e = Step MainCtx" "pcs s MainCtx = Locked" "mainTasks s = []"
      "s' = setpc MainCtx Idle (s\<lparr>scheduledToRunOnMain := False, mainMutex := None\<rparr>)"
  | (m_pop) f q where "e = Step MainCtx" "pcs s MainCtx = Locked" "mainTasks s = f # q"
      "s' = setpc MainCtx (loopTest body f)
              (s\<lparr>mainTasks := q, mainPopped := mainPopped s @ [f], mainMutex := None\<rparr>)"
  | (d_lock) "e = Step Destroyer" "destructor s = DLock" "mutex s = None"
      "s' = s\<lparr>mutex := Some Destroyer, destructor := DSetDone\<rparr>"
  | (d_set) "e = Step Destroyer" "destructor s = DSetDone"
      "s' = s\<lparr>doneFlag := True, mutex := None, destructor := DNotify\<rparr>"
  | (d_notify) "e = Step Destroyer" "destructor s = DNotify"
      "s' = (notify_one s)\<lparr>destructor := DJoin\<rparr>"
  | (d_join) "e = Step Destroyer" "destructor s = DJoin" "pcs s Worker = Idle"
      "s' = s\<lparr>destructor := Destroyed\<rparr>"
  | (invoke) n c where "e = Invoke n c" "pcs s (Caller n) = Idle"
      "s' = setpc (Caller n) (Body [c]) s"
  | (pump) "e = Pump" "pcs s MainCtx = Idle" "0 < pumpPending s"
      "s' = setpc MainCtx Dequeue (s\<lparr>pumpPending := pumpPending s - 1\<rparr>)"
  | (stray) "e = Stray" "pcs s MainCtx = Idle" "s' = setpc MainCtx Dequeue s"
  | (destroy) "e = Destroy" "destructor s = NotStarted" "s' = s\<lparr>destructor := DLock\<rparr>"
  | (wakeup) "e = Wakeup" "pcs s Worker = Waiting" "s' = setpc Worker Dequeue s"
proof (cases e)
  case (Step t)
  show ?thesis
  proof (cases "t = Destroyer")
    case True
    with Step assms d_lock d_set d_notify d_join show ?thesis
      by (cases "destructor s") (auto split: if_splits)
  next
    case False
    with Step assms have ts: "threadStep body t (pcs s t) s = Some s'"
      by (cases t) auto
    from ts show ?thesis
    proof (cases rule: threadStep_cases)
      case body_done
      then show ?thesis using Step False that(1) by blast
    next
      case (lock_bg f cs)
      then show ?thesis using Step False that(2) by blast
    next
      case (lock_main f cs)
      then show ?thesis using Step False that(3) by blast
    next
      case (emplace_bg f cs)
      then show ?thesis using Step False that(4) by blast
    next
      case (coalesced f cs)
      then show ?thesis using Step False that(5) by blast
    next
      case (first f cs)
      then show ?thesis using Step False that(6) by blast
    next
      case (notify cs)
      then show ?thesis using Step False that(7) by blast
    next
      case (request cs)
      then show ?thesis using Step False that(8) by blast
    next
      case w_lock
      then show ?thesis using Step that(9) by blast
    next
      case w_wait
      then show ?thesis using Step that(10) by blast
    next
      case w_exit
      then show ?thesis using Step that(11) by blast
    next
      case (w_pop f q)
      then show ?thesis using Step that(12) by blast
    next
      case m_lock
      then show ?thesis using Step that(13) by blast
    next
      case m_empty
      then show ?thesis using Step that(14) by blast
    next
      case (m_pop f q)
      then show ?thesis using Step that(15) by blast
    qed
  qed
next
  case (Invoke n c)
  with assms invoke show ?thesis by (auto split: if_splits)
next
  case Pump
  with assms pump show ?thesis by (auto split: if_splits)
next
  case Stray
  with assms stray show ?thesis by (auto split: if_splits)
next
  case Destroy
  with assms destroy show ?thesis by (auto split: if_splits)
next
  case Wakeup
  with assms wakeup show ?thesis by (auto split: if_splits)
qed

section \<open>What the steps change\<close>

lemma setpc_frame [simp]:
  "bgTasks (setpc t p s) = bgTasks s"
  "doneFlag (setpc t p s) = doneFlag s"
  "mainTasks (setpc t p s) = mainTasks s"
  "scheduledToRunOnMain (setpc t p s) = scheduledToRunOnMain s"
  "mutex (setpc t p s) = mutex s"
  "mainMutex (setpc t p s) = mainMutex s"
  "destructor (setpc t p s) = destructor s"
  "bgPushed (setpc t p s) = bgPushed s"
  "bgPopped (setpc t p s) = bgPopped s"
  "bgFinished (setpc t p s) = bgFinished s"
  "mainPushed (setpc t p s) = mainPushed s"
  "mainPopped (setpc t p s) = mainPopped s"
  "mainFinished (setpc t p s) = mainFinished s"
  "pumpRequests (setpc t p s) = pumpRequests s"
  "pumpPending (setpc t p s) = pumpPending s"
  "pcs (setpc t p s) = (pcs s)(t := p)"
  by (simp_all add: setpc_def)

lemma notify_one_frame [simp]:
  "bgTasks (notify_one s) = bgTasks s"
  "doneFlag (notify_one s) = doneFlag s"
  "mainTasks (notify_one s) = mainTasks s"
  "scheduledToRunOnMain (notify_one s) = scheduledToRunOnMain s"
  "mutex (notify_one s) = mutex s"
  "mainMutex (notify_one s) = mainMutex s"
  "destructor (notify_one s) = destructor s"
  "bgPushed (notify_one s) = bgPushed s"
  "bgPopped (notify_one s) = bgPopped s"
  "bgFinished (notify_one s) = bgFinished s"
  "mainPushed (notify_one s) = mainPushed s"
  "mainPopped (notify_one s) = mainPopped s"
  "mainFinished (notify_one s) = mainFinished s"
  "pumpRequests (notify_one s) = pumpRequests s"
  "pumpPending (notify_one s) = pumpPending s"
  "pcs (notify_one s) = (if pcs s Worker = Waiting then (pcs s)(Worker := Dequeue) else pcs s)"
  by (simp_all add: notify_one_def)

lemma emplaceBg_frame [simp]:
  "doneFlag (emplaceBg f s) = doneFlag s"
  "mainTasks (emplaceBg f s) = mainTasks s"
  "scheduledToRunOnMain (emplaceBg f s) = scheduledToRunOnMain s"
  "mutex (emplaceBg f s) = mutex s"
  "mainMutex (emplaceBg f s) = mainMutex s"
  "pcs (emplaceBg f s) = pcs s"
  "destructor (emplaceBg f s) = destructor s"
  "bgPopped (emplaceBg f s) = bgPopped s"
  "bgFinished (emplaceBg f s) = bgFinished s"
  "mainPushed (emplaceBg f s) = mainPushed s"
  "mainPopped (emplaceBg f s) = mainPopped s"
  "mainFinished (emplaceBg f s) = mainFinished s"
  "pumpRequests (emplaceBg f s) = pumpRequests s"
  "pumpPending (emplaceBg f s) = pumpPending s"
  "bgTasks (emplaceBg f s) = bgTasks s @ [f]"
  "bgPushed (emplaceBg f s) = bgPushed s @ [f]"
  by (simp_all add: emplaceBg_def)

lemma emplaceMain_frame [simp]:
  "bgTasks (emplaceMain f s) = bgTasks s"
  "doneFlag (emplaceMain f s) = doneFlag s"
  "scheduledToRunOnMain (emplaceMain f s) = scheduledToRunOnMain s"
  "mutex (emplaceMain f s) = mutex s"
  "mainMutex (emplaceMain f s) = mainMutex s"
  "pcs (emplaceMain f s) = pcs s"
  "destructor (emplaceMain f s) = destructor s"
  "bgPushed (emplaceMain f s) = bgPushed s"
  "bgPopped (emplaceMain f s) = bgPopped s"
  "bgFinished (emplaceMain f s) = bgFinished s"
  "mainPopped (emplaceMain f s) = mainPopped s"
  "mainFinished (emplaceMain f s) = mainFinished s"
  "pumpRequests (emplaceMain f s) = pumpRequests s"
  "pumpPending (emplaceMain f s) = pumpPending s"
  "mainTasks (emplaceMain f s) = mainTasks s @ [f]"
  "mainPushed (emplaceMain f s) = mainPushed s @ [f]"
  by (simp_all add: emplaceMain_def)

lemma requestPump_frame [simp]:
  "bgTasks (requestPump s) = bgTasks s"
  "doneFlag (requestPump s) = doneFlag s"
  "mainTasks (requestPump s) = mainTasks s"
  "scheduledToRunOnMain (requestPump s) = scheduledToRunOnMain s"
  "mutex (requestPump s) = mutex s"
  "mainMutex (requestPump s) = mainMutex s"
  "pcs (requestPump s) = pcs s"
  "destructor (requestPump s) = destructor s"
  "bgPushed (requestPump s) = bgPushed s"
  "bgPopped (requestPump s) = bgPopped s"
  "bgFinished (requestPump s) = bgFinished s"
  "mainPushed (requestPump s) = mainPushed s"
  "mainPopped (requestPump s) = mainPopped s"
  "mainFinished (requestPump s) = mainFinished s"
  "pumpRequests (requestPump s) = Suc (pumpRequests s)"
  "pumpPending (requestPump s) = Suc (pumpPending s)"
  by (simp_all add: requestPump_def)

lemma finish_frame [simp]:
  "bgTasks (finish t s) = bgTasks s"
  "doneFlag (finish t s) = doneFlag s"
  "mainTasks (finish t s) = mainTasks s"
  "scheduledToRunOnMain (finish t s) = scheduledToRunOnMain s"
  "mutex (finish t s) = mutex s"
  "mainMutex (finish t s) = mainMutex s"
  "destructor (finish t s) = destructor s"
  "bgPushed (finish t s) = bgPushed s"
  "bgPopped (finish t s) = bgPopped s"
  "mainPushed (finish t s) = mainPushed s"
  "mainPopped (finish t s) = mainPopped s"
  "pumpRequests (finish t s) = pumpRequests s"
  "pumpPending (finish t s) = pumpPending s"
  by (cases t; simp)+

lemma finish_pcs [simp]:
  "pcs (finish t s) = (pcs s)(t := if t = Worker \<or> t = MainCtx then Dequeue else Idle)"
  by (cases t) simp_all

lemma finish_counts [simp]:
  "bgFinished (finish t s) = (if t = Worker then Suc (bgFinished s) else bgFinished s)"
  "mainFinished (finish t s) = (if t = MainCtx then Suc (mainFinished s) else mainFinished s)"
  by (cases t; simp)+


lemma wellPlaced_simps2 [simp]:
  "wellPlaced t Idle"
  "wellPlaced t (Body cs) = (t \<noteq> Destroyer)"
  "wellPlaced t (Emplace c cs) = (t \<noteq> Destroyer)"
  "wellPlaced t (Notify cs) = (t \<noteq> Destroyer)"
  "wellPlaced t (Request cs) = (t \<noteq> Destroyer)"
  "wellPlaced Worker (loopTest body f)"
  "wellPlaced MainCtx (loopTest body f)"
  by (cases t; cases f; simp)+

lemma inBg_simps2 [simp]:
  "inBg t Idle = False" "inBg t Dequeue = False" "inBg t Waiting = False"
  "inBg t (Body cs) = False" "inBg t (Notify cs) = False" "inBg t (Request cs) = False"
  "inBg t Locked = (t = Worker)" "inBg t (loopTest body f) = False"
  "inBg t (Emplace c cs) = (\<exists>f. c = RunOnBgThread f)"
  by (cases t; cases f; cases c; simp)+

lemma inMain_simps2 [simp]:
  "inMain t Idle = False" "inMain t Dequeue = False" "inMain t Waiting = False"
  "inMain t (Body cs) = False" "inMain t (Notify cs) = False" "inMain t (Request cs) = False"
  "inMain t Locked = (t = MainCtx)" "inMain t (loopTest body f) = False"
  "inMain t (Emplace c cs) = (\<exists>f. c = RunOnMain f)"
  by (cases t; cases f; cases c; simp)+

lemma loopTest_neq [simp]:
  "loopTest body f \<noteq> Waiting" "loopTest body f \<noteq> Dequeue" "loopTest body f \<noteq> Locked"
  "loopTest body f \<noteq> Emplace c cs" "loopTest body f \<noteq> Notify cs"
  "loopTest body f \<noteq> Request cs"
  "Waiting \<noteq> loopTest body f" "Dequeue \<noteq> loopTest body f" "Locked \<noteq> loopTest body f"
  "Emplace c cs \<noteq> loopTest body f" "Notify cs \<noteq> loopTest body f"
  "Request cs \<noteq> loopTest body f"
  by (cases f; simp)+

lemma loopTest_Idle [simp]: "(loopTest body f = Idle) = (f = Null)" "(Idle = loopTest body f) = (f = Null)"
  by (cases f; simp)+

section \<open>The invariants hold in every reachable state\<close>

lemma lockInv_init: "lockInv init"
  by (simp add: lockInv_def threadInv_def init_def)

lemma lockInv_step:
  assumes "lockInv s" "step body e s = Some s'"
  shows "lockInv s'"
proof -
  from assms(1) have A: "\<And>t. threadInv s t"
    by (simp add: lockInv_def)
  note B = A [of Worker] A [of MainCtx] A [of Destroyer]
  have "threadInv s' u" for u
    using assms(2)
  proof (cases rule: step_cases)
    case (body_done t)
    with A [of u] A [of t] B show ?thesis by (auto simp: threadInv_def)
  next
    case (lock_bg t f cs)
    with A [of u] A [of t] B show ?thesis by (auto simp: threadInv_def)
  next
    case (lock_main t f cs)
    with A [of u] A [of t] B show ?thesis by (auto simp: threadInv_def)
  next
    case (emplace_bg t f cs)
    with A [of u] A [of t] B show ?thesis by (auto simp: threadInv_def)
  next
    case (coalesced t f cs)
    with A [of u] A [of t] B show ?thesis by (auto simp: threadInv_def)
  next
    case (first t f cs)
    with A [of u] A [of t] B show ?thesis by (auto simp: threadInv_def)
  next
    case (notify t cs)
    with A [of u] A [of t] B show ?thesis by (auto simp: threadInv_def)
  next
    case (request t cs)
    with A [of u] A [of t] B show ?thesis by (auto simp: threadInv_def)
  next
    case (invoke n c)
    with A [of u] A [of "Caller n"] B show ?thesis by (auto simp: threadInv_def)
  qed (use A [of u] B in \<open>auto simp: threadInv_def\<close>)
  then show ?thesis by (simp add: lockInv_def)
qed

lemma reach_lockInv: "reach body s \<Longrightarrow> lockInv s"
  by (induction rule: reach.induct) (auto intro: lockInv_init lockInv_step)

lemma running_loopTest [simp]: "running (loopTest body f) = callable f"
  by (cases f) (simp_all add: callable_def)

lemma fifoInv_init: "fifoInv init"
  by (simp add: fifoInv_def init_def)

lemma fifoInv_step:
  assumes "fifoInv s" "step body e s = Some s'"
  shows "fifoInv s'"
  using assms(2)
  by (cases rule: step_cases) (use assms(1) in \<open>auto simp: fifoInv_def\<close>)

lemma workerInv_init: "workerInv init"
  by (simp add: workerInv_def init_def bgExecuted_def)

lemma workerInv_step:
  assumes "workerInv s" "step body e s = Some s'"
  shows "workerInv s'"
  using assms(2)
  by (cases rule: step_cases) (use assms(1) in \<open>auto simp: workerInv_def bgExecuted_def\<close>)

lemma mainInv_init: "mainInv init"
  by (simp add: mainInv_def init_def mainExecuted_def)

lemma mainInv_step:
  assumes "mainInv s" "step body e s = Some s'"
  shows "mainInv s'"
  using assms(2)
  by (cases rule: step_cases) (use assms(1) in \<open>auto simp: mainInv_def mainExecuted_def\<close>)

lemma isRequest_loopTest [simp]: "isRequest (loopTest body f) = False"
  by (cases f) simp_all

lemma isNotify_loopTest [simp]: "isNotify (loopTest body f) = False"
  by (cases f) simp_all

lemma step_keeps_request:
  assumes "step body e s = Some s'" "isRequest (pcs s u)"
  shows "isRequest (pcs s' u) \<or> 0 < pumpPending s'"
  using assms(1)
  by (cases rule: step_cases) (use assms(2) in \<open>auto split: if_splits\<close>)

lemma requesters_step:
  assumes "step body e s = Some s'" "requesters s \<noteq> {}"
  shows "requesters s' \<noteq> {} \<or> 0 < pumpPending s'"
proof -
  from assms(2) obtain u where "isRequest (pcs s u)"
    by (auto simp: requesters_def)
  from step_keeps_request [OF assms(1) this] show ?thesis
    by (auto simp: requesters_def)
qed

lemma dispatchInv_init: "dispatchInv init"
  by (simp add: dispatchInv_def init_def requesters_def)

lemma dispatchInv_step:
  assumes "dispatchInv s" "step body e s = Some s'"
  shows "dispatchInv s'"
proof -
  have R: "requesters s \<noteq> {} \<longrightarrow> requesters s' \<noteq> {} \<or> 0 < pumpPending s'"
    using requesters_step [OF assms(2)] by blast
  from assms(2) show ?thesis
  proof (cases rule: step_cases)
    case (first t f cs)
    then have "t \<in> requesters s'" by (simp add: requesters_def)
    then show ?thesis unfolding dispatchInv_def by blast
  next
    case (m_pop f q)
    with assms(1) R show ?thesis by (cases f) (auto simp: dispatchInv_def)
  qed (use assms(1) R in \<open>auto simp: dispatchInv_def\<close>)
qed

lemma step_keeps_notify:
  assumes "step body e s = Some s'" "isNotify (pcs s u)"
  shows "isNotify (pcs s' u) \<or> pcs s' Worker \<noteq> Waiting"
  using assms(1)
  by (cases rule: step_cases) (use assms(2) in \<open>auto split: if_splits\<close>)

lemma notifiers_step:
  assumes "step body e s = Some s'" "notifiers s \<noteq> {}"
  shows "notifiers s' \<noteq> {} \<or> pcs s' Worker \<noteq> Waiting"
proof -
  from assms(2) obtain u where "isNotify (pcs s u)"
    by (auto simp: notifiers_def)
  from step_keeps_notify [OF assms(1) this] show ?thesis
    by (auto simp: notifiers_def)
qed

lemma wakeInv_init: "wakeInv init"
  by (simp add: wakeInv_def init_def)

lemma wakeInv_step:
  assumes "wakeInv s" "step body e s = Some s'"
  shows "wakeInv s'"
proof -
  have R: "notifiers s \<noteq> {} \<longrightarrow> notifiers s' \<noteq> {} \<or> pcs s' Worker \<noteq> Waiting"
    using notifiers_step [OF assms(2)] by blast
  from assms(2) show ?thesis
  proof (cases rule: step_cases)
    case (emplace_bg t f cs)
    then have "t \<in> notifiers s'" by (simp add: notifiers_def)
    then show ?thesis unfolding wakeInv_def by blast
  qed (use assms(1) R in \<open>auto simp: wakeInv_def\<close>)
qed

lemma reach_inv: "reach body s \<Longrightarrow> inv s"
proof (induction rule: reach.induct)
  case reach_init
  show ?case
    by (simp add: inv_def lockInv_init fifoInv_init workerInv_init mainInv_init
        dispatchInv_init wakeInv_init)
next
  case (reach_step s e s')
  then show ?case
    unfolding inv_def
    by (blast intro: lockInv_step fifoInv_step workerInv_step mainInv_step
        dispatchInv_step wakeInv_step)
qed

section \<open>Facts about executions\<close>

lemma exec_append:
  "exec body (es @ es') s = (case exec body es s of None \<Rightarrow> None | Some s1 \<Rightarrow> exec body es' s1)"
  by (induction es arbitrary: s) (auto split: option.splits)

lemma exec_reach: "reach body s \<Longrightarrow> exec body es s = Some s' \<Longrightarrow> reach body s'"
  by (induction es arbitrary: s) (auto split: option.splits intro: reach_step)

lemma reach_exec: "reach body s \<Longrightarrow> \<exists>es. exec body es init = Some s"
proof (induction rule: reach.induct)
  case reach_init
  have "exec body [] init = Some init" by simp
  then show ?case by blast
next
  case (reach_step s e s')
  then obtain es where "exec body es init = Some s" by blast
  with reach_step.hyps(2) have "exec body (es @ [e]) init = Some s'"
    by (simp add: exec_append)
  then show ?case by blast
qed

lemma step_grows:
  assumes "step body e s = Some s'"
  shows "prefix (bgPushed s) (bgPushed s')" "prefix (bgPopped s) (bgPopped s')"
    "prefix (mainPushed s) (mainPushed s')" "prefix (mainPopped s) (mainPopped s')"
    "pumpRequests s \<le> pumpRequests s'" "bgFinished s \<le> bgFinished s'"
    "mainFinished s \<le> mainFinished s'"
  using assms by (cases rule: step_cases; simp)+

lemma exec_grows:
  assumes "exec body es s = Some s'"
  shows "prefix (bgPushed s) (bgPushed s')" "prefix (bgPopped s) (bgPopped s')"
    "prefix (mainPushed s) (mainPushed s')" "prefix (mainPopped s) (mainPopped s')"
    "pumpRequests s \<le> pumpRequests s'"
  using assms
proof (induction es arbitrary: s)
  case Nil
  {
    case 1 then show ?case by simp
  next
    case 2 then show ?case by simp
  next
    case 3 then show ?case by simp
  next
    case 4 then show ?case by simp
  next
    case 5 then show ?case by simp
  }
next
  case (Cons e es)
  {
    case 1
    then obtain s1 where s1: "step body e s = Some s1" "exec body es s1 = Some s'"
      by (auto split: option.splits)
    from step_grows(1) [OF s1(1)] Cons.IH(1) [OF s1(2)] show ?case
      using prefix_order.order_trans by blast
  next
    case 2
    then obtain s1 where s1: "step body e s = Some s1" "exec body es s1 = Some s'"
      by (auto split: option.splits)
    from step_grows(2) [OF s1(1)] Cons.IH(2) [OF s1(2)] show ?case
      using prefix_order.order_trans by blast
  next
    case 3
    then obtain s1 where s1: "step body e s = Some s1" "exec body es s1 = Some s'"
      by (auto split: option.splits)
    from step_grows(3) [OF s1(1)] Cons.IH(3) [OF s1(2)] show ?case
      using prefix_order.order_trans by blast
  next
    case 4
    then obtain s1 where s1: "step body e s = Some s1" "exec body es s1 = Some s'"
      by (auto split: option.splits)
    from step_grows(4) [OF s1(1)] Cons.IH(4) [OF s1(2)] show ?case
      using prefix_order.order_trans by blast
  next
    case 5
    then obtain s1 where s1: "step body e s = Some s1" "exec body es s1 = Some s'"
      by (auto split: option.splits)
    from step_grows(5) [OF s1(1)] Cons.IH(5) [OF s1(2)] show ?case
      by simp
  }
qed

lemma worker_stays_idle:
  assumes "step body e s = Some s'" "pcs s Worker = Idle"
  shows "pcs s' Worker = Idle \<and> bgPopped s' = bgPopped s \<and> bgFinished s' = bgFinished s"
  using assms(1)
  by (cases rule: step_cases) (use assms(2) in \<open>auto split: if_splits\<close>)

section \<open>Returns of the drain, exits of the worker, wedged dispatch\<close>

lemma filter_callable_id: "Null \<notin> set xs \<Longrightarrow> filter callable xs = xs"
  by (induction xs) (auto simp: callable_def)

lemma main_return:
  assumes "reach body s" "step body Mn s = Some s'" "pcs s' MainCtx = Idle"
    "Null \<notin> set (mainPopped s')"
  shows "mainTasks s = [] \<and> mainTasks s' = [] \<and> mainExecuted s' = mainPushed s' \<and>
         mainFinished s' = length (mainPushed s') \<and> \<not> scheduledToRunOnMain s'"
proof -
  from reach_inv [OF assms(1)] have f: "fifoInv s" and m: "mainInv s"
    by (simp_all add: inv_def)
  from assms(2) show ?thesis
  proof (cases rule: step_cases)
    case m_empty
    with f m assms(4) show ?thesis
      by (simp add: fifoInv_def mainInv_def mainExecuted_def filter_callable_id)
  next
    case (m_pop f q)
    with assms(3,4) show ?thesis by simp
  qed (use assms(3) in auto)
qed

lemma idle_worker_step:
  assumes "step body e s = Some s'" "pcs s Worker = Idle"
  shows "\<exists>more. bgTasks s' = bgTasks s @ more \<and> bgPushed s' = bgPushed s @ more"
  using assms(1)
  by (cases rule: step_cases) (use assms(2) in auto)

lemma idle_worker_exec:
  assumes "exec body es s = Some s'" "pcs s Worker = Idle"
  shows "pcs s' Worker = Idle \<and> bgPopped s' = bgPopped s \<and> bgFinished s' = bgFinished s \<and>
         (\<exists>more. bgTasks s' = bgTasks s @ more \<and> bgPushed s' = bgPushed s @ more)"
  using assms
proof (induction es arbitrary: s)
  case Nil
  then show ?case by simp
next
  case (Cons e es)
  then obtain s1 where s1: "step body e s = Some s1" "exec body es s1 = Some s'"
    by (auto split: option.splits)
  from worker_stays_idle [OF s1(1) Cons.prems(2)] have
    i: "pcs s1 Worker = Idle" "bgPopped s1 = bgPopped s" "bgFinished s1 = bgFinished s"
    by simp_all
  from idle_worker_step [OF s1(1) Cons.prems(2)] obtain m1 where
    m1: "bgTasks s1 = bgTasks s @ m1" "bgPushed s1 = bgPushed s @ m1" by blast
  from Cons.IH [OF s1(2) i(1)] obtain m2 where
    "pcs s' Worker = Idle" "bgPopped s' = bgPopped s1" "bgFinished s' = bgFinished s1"
    "bgTasks s' = bgTasks s1 @ m2" "bgPushed s' = bgPushed s1 @ m2" by blast
  with i m1 show ?case by simp
qed

lemma wedged_step:
  assumes "wedged s" "step body e s = Some s'" "e \<noteq> Stray"
  shows "wedged s' \<and> pumpRequests s' = pumpRequests s \<and> mainPopped s' = mainPopped s \<and>
         mainFinished s' = mainFinished s \<and>
         (\<exists>more. mainTasks s' = mainTasks s @ more \<and> mainPushed s' = mainPushed s @ more)"
proof -
  from assms(1) have w: "pcs s MainCtx = Idle" "scheduledToRunOnMain s" "pumpPending s = 0"
    and r: "\<And>t. \<not> isRequest (pcs s t)"
    by (auto simp: wedged_def requesters_def)
  have r': "\<And>cs t. pcs s t \<noteq> Request cs"
    using r by (metis isRequest.simps(1))
  from assms(2) show ?thesis
    by (cases rule: step_cases)
      (use w r r' assms(3) in \<open>auto simp: wedged_def requesters_def\<close>)
qed

lemma wedged_exec:
  assumes "exec body es s = Some s'" "wedged s" "Stray \<notin> set es"
  shows "wedged s' \<and> pumpRequests s' = pumpRequests s \<and> mainPopped s' = mainPopped s \<and>
         mainFinished s' = mainFinished s \<and>
         (\<exists>more. mainTasks s' = mainTasks s @ more \<and> mainPushed s' = mainPushed s @ more)"
  using assms
proof (induction es arbitrary: s)
  case Nil
  then show ?case by simp
next
  case (Cons e es)
  then obtain s1 where s1: "step body e s = Some s1" "exec body es s1 = Some s'"
    by (auto split: option.splits)
  from Cons.prems(3) have ne: "e \<noteq> Stray" "Stray \<notin> set es" by auto
  from wedged_step [OF Cons.prems(2) s1(1) ne(1)] obtain m1 where
    a: "wedged s1" "pumpRequests s1 = pumpRequests s" "mainPopped s1 = mainPopped s"
      "mainFinished s1 = mainFinished s"
      "mainTasks s1 = mainTasks s @ m1" "mainPushed s1 = mainPushed s @ m1" by blast
  from Cons.IH [OF s1(2) a(1) ne(2)] obtain m2 where
    "wedged s'" "pumpRequests s' = pumpRequests s1" "mainPopped s' = mainPopped s1"
      "mainFinished s' = mainFinished s1"
      "mainTasks s' = mainTasks s1 @ m2" "mainPushed s' = mainPushed s1 @ m2" by blast
  with a show ?case by simp
qed

lemma step_new_request:
  assumes "step body e s = Some s'" "isRequest (pcs s' u)"
  shows "isRequest (pcs s u) \<or> (e = Step u \<and> \<not> scheduledToRunOnMain s)"
  using assms(1)
  by (cases rule: step_cases) (use assms(2) in \<open>auto split: if_splits\<close>)

lemma step_request_gone:
  assumes "step body e s = Some s'" "isRequest (pcs s u)" "\<not> isRequest (pcs s' u)"
    "u \<noteq> MainCtx"
  shows "e = Step u \<and> pumpPending s' = Suc (pumpPending s) \<and> pcs s' MainCtx = pcs s MainCtx
         \<and> scheduledToRunOnMain s' = scheduledToRunOnMain s \<and> mainPopped s' = mainPopped s"
  using assms(1)
  by (cases rule: step_cases) (use assms(2,3,4) in \<open>auto split: if_splits\<close>)

lemma oneDispatch_init: "oneDispatch init"
  by (simp add: oneDispatch_def init_def requesters_def)

lemma oneDispatch_step:
  assumes "oneDispatch s" "step body e s = Some s'" "e \<noteq> Stray"
  shows "oneDispatch s'"
proof (cases "scheduledToRunOnMain s")
  case False
  with assms(1) have i: "pcs s MainCtx = Idle" "pumpPending s = 0"
    and r: "\<And>t. \<not> isRequest (pcs s t)"
    by (auto simp: oneDispatch_def requesters_def)
  have r': "\<And>cs t. pcs s t \<noteq> Request cs"
    using r by (metis isRequest.simps(1))
  from assms(2) show ?thesis
    by (cases rule: step_cases)
      (use False i r r' assms(3) in \<open>auto simp: oneDispatch_def requesters_def split: if_splits\<close>)
next
  case True
  with assms(1) have
    a: "pcs s MainCtx \<noteq> Idle \<longrightarrow> pumpPending s = 0 \<and> (\<forall>t. \<not> isRequest (pcs s t))" and
    b: "0 < pumpPending s \<longrightarrow> pumpPending s = 1 \<and> (\<forall>t. \<not> isRequest (pcs s t))" and
    c: "\<And>t u. isRequest (pcs s t) \<Longrightarrow> isRequest (pcs s u) \<Longrightarrow> t = u" and
    d: "pcs s MainCtx = Idle \<and> pumpPending s = 0 \<and> (\<forall>t. \<not> isRequest (pcs s t)) \<longrightarrow>
          Null \<in> set (mainPopped s)"
    by (auto simp: oneDispatch_def requesters_def)
  show ?thesis
  proof (cases "\<exists>u. isRequest (pcs s u)")
    case True
    then obtain u where u: "isRequest (pcs s u)" by blast
    with a b have i: "pcs s MainCtx = Idle" "pumpPending s = 0" by auto
    from c u have only: "\<And>t. isRequest (pcs s t) \<Longrightarrow> t = u" by blast
    show ?thesis
    proof (cases "isRequest (pcs s' u)")
      case True
      have same: "\<And>t. isRequest (pcs s' t) \<Longrightarrow> t = u"
        using step_new_request [OF assms(2)] only \<open>scheduledToRunOnMain s\<close> by blast
      from assms(2) have "scheduledToRunOnMain s' \<and> pcs s' MainCtx = Idle \<and> pumpPending s' = 0"
      proof (cases rule: step_cases)
        case (request t cs)
        then have "isRequest (pcs s t)" by simp
        then have "t = u" by (rule only)
        with request True show ?thesis by simp
      qed (use i u True \<open>scheduledToRunOnMain s\<close> assms(3) in \<open>auto split: if_splits\<close>)
      with True same show ?thesis
        by (auto simp: oneDispatch_def requesters_def)
    next
      case False
      from u i have "u \<noteq> MainCtx" by auto
      from step_request_gone [OF assms(2) u False this] i \<open>scheduledToRunOnMain s\<close>
      have g: "pumpPending s' = 1" "pcs s' MainCtx = Idle" "scheduledToRunOnMain s'" by simp_all
      have none: "\<And>t. \<not> isRequest (pcs s' t)"
        using step_new_request [OF assms(2)] only False \<open>scheduledToRunOnMain s\<close> by blast
      from g none show ?thesis
        by (auto simp: oneDispatch_def requesters_def)
    qed
  next
    case False
    then have r: "\<And>t. \<not> isRequest (pcs s t)" by blast
    have r': "\<And>cs t. pcs s t \<noteq> Request cs"
      using r by (metis isRequest.simps(1))
    have none: "\<And>t. \<not> isRequest (pcs s' t)"
      using step_new_request [OF assms(2)] r \<open>scheduledToRunOnMain s\<close> by blast
    from assms(2) have
      "if scheduledToRunOnMain s'
       then (pcs s' MainCtx \<noteq> Idle \<longrightarrow> pumpPending s' = 0) \<and>
            (0 < pumpPending s' \<longrightarrow> pumpPending s' = 1) \<and>
            (pcs s' MainCtx = Idle \<and> pumpPending s' = 0 \<longrightarrow> Null \<in> set (mainPopped s'))
       else pcs s' MainCtx = Idle \<and> pumpPending s' = 0"
      by (cases rule: step_cases)
        (use a b d r r' \<open>scheduledToRunOnMain s\<close> assms(3) in \<open>auto split: if_splits\<close>)
    with none show ?thesis
      by (auto simp: oneDispatch_def requesters_def)
  qed
qed

lemma oneDispatch_exec:
  assumes "exec body es s = Some s'" "oneDispatch s" "Stray \<notin> set es"
  shows "oneDispatch s'"
  using assms
proof (induction es arbitrary: s)
  case Nil
  then show ?case by simp
next
  case (Cons e es)
  then obtain s1 where s1: "step body e s = Some s1" "exec body es s1 = Some s'"
    by (auto split: option.splits)
  from Cons.prems(3) have ne: "e \<noteq> Stray" "Stray \<notin> set es" by auto
  from oneDispatch_step [OF Cons.prems(2) s1(1) ne(1)] Cons.IH [OF s1(2) _ ne(2)]
  show ?case by blast
qed

lemma reach_fifo:
  assumes "reach body s"
  shows "bgPushed s = bgPopped s @ bgTasks s" "mainPushed s = mainPopped s @ mainTasks s"
  using reach_inv [OF assms] by (simp_all add: inv_def fifoInv_def)

lemma reach_workerInv: "reach body s \<Longrightarrow> workerInv s"
  using reach_inv [of body s] by (simp add: inv_def)

lemma worker_exit_step:
  assumes "reach body s" "step body e s = Some s'" "pcs s Worker \<noteq> Idle" "pcs s' Worker = Idle"
    "Null \<notin> set (bgPopped s')"
  shows "e = Wk \<and> pcs s Worker = Locked \<and> bgTasks s = [] \<and> doneFlag s \<and>
         bgPopped s' = bgPopped s \<and> bgPushed s' = bgPushed s"
  using assms(2)
proof (cases rule: step_cases)
  case (w_pop f q)
  with assms(4,5) show ?thesis by simp
qed (use assms(3,4) in \<open>auto split: if_splits\<close>)

lemma worker_drains:
  assumes "exec body es s1 = Some s2" "reach body s1" "pcs s1 Worker \<noteq> Idle"
    "pcs s2 Worker = Idle" "Null \<notin> set (bgPopped s2)"
  shows "prefix (bgPushed s1) (bgPopped s2)"
  using assms
proof (induction es arbitrary: s1)
  case Nil
  then show ?case by simp
next
  case (Cons e es)
  then obtain sm where sm: "step body e s1 = Some sm" "exec body es sm = Some s2"
    by (auto split: option.splits)
  have rm: "reach body sm"
    using reach_step [OF Cons.prems(2) sm(1)] .
  show ?case
  proof (cases "pcs sm Worker = Idle")
    case False
    from Cons.IH [OF sm(2) rm False Cons.prems(4,5)]
    have "prefix (bgPushed sm) (bgPopped s2)" .
    with step_grows(1) [OF sm(1)] show ?thesis
      using prefix_order.order_trans by blast
  next
    case True
    from exec_grows(2) [OF sm(2)] have p: "prefix (bgPopped sm) (bgPopped s2)" .
    with Cons.prems(5) have "Null \<notin> set (bgPopped sm)"
      using set_mono_prefix by blast
    from worker_exit_step [OF Cons.prems(2) sm(1) Cons.prems(3) True this]
    have x: "bgTasks s1 = []" "bgPopped sm = bgPopped s1" by simp_all
    from reach_fifo(1) [OF Cons.prems(2)] x(1) have "bgPushed s1 = bgPopped s1" by simp
    with x(2) p show ?thesis by simp
  qed
qed




lemma prefix_drop: "prefix xs ys \<Longrightarrow> ys = xs @ drop (length xs) ys"
  by (auto simp: prefix_def)

lemma reach_threadInv: "reach body s \<Longrightarrow> threadInv s t"
  using reach_lockInv [of body s] by (simp add: lockInv_def)

lemma holder_can_step:
  assumes "threadInv s u" "mutex s = Some u" "destructor s \<noteq> DSetDone"
  shows "u \<noteq> Destroyer \<and> (\<exists>s'. step body (Step u) s = Some s')"
proof -
  from assms have i: "inBg u (pcs s u)" and w: "wellPlaced u (pcs s u)"
    by (auto simp: threadInv_def)
  from i have nd: "u \<noteq> Destroyer"
    using w by (cases u) auto
  from i have "\<exists>s'. threadStep body u (pcs s u) s = Some s'"
    by (cases "(u, pcs s u)" rule: inBg.cases) (auto simp: dequeueBg_def split: option.splits)
  with nd show ?thesis by (cases u) auto
qed

lemma main_holder_can_step:
  assumes "threadInv s u" "mainMutex s = Some u"
  shows "u \<noteq> Destroyer \<and> (\<exists>s'. step body (Step u) s = Some s')"
proof -
  from assms have i: "inMain u (pcs s u)" and w: "wellPlaced u (pcs s u)"
    by (auto simp: threadInv_def)
  from i have nd: "u \<noteq> Destroyer"
    using w by (cases u) auto
  from i have "\<exists>s'. threadStep body u (pcs s u) s = Some s'"
    by (cases "(u, pcs s u)" rule: inMain.cases)
      (auto simp: dequeueMain_def Let_def split: prod.splits)
  with nd show ?thesis by (cases u) auto
qed

lemma join_not_deadlocked:
  assumes "reach body s" "destructor s = DJoin" "pcs s Worker \<noteq> Idle"
  shows "\<exists>t s'. t \<noteq> Destroyer \<and> step body (Step t) s = Some s'"
proof -
  have T: "threadInv s t" for t using assms(1) by (rule reach_threadInv)
  from reach_inv [OF assms(1)] have wk: "wakeInv s" and wi: "workerInv s"
    by (simp_all add: inv_def)
  from wi assms(2) have d: "doneFlag s" by (simp add: workerInv_def)
  have nd: "destructor s \<noteq> DSetDone" using assms(2) by simp
  have bgfree: "\<exists>t s'. t \<noteq> Destroyer \<and> step body (Step t) s = Some s'"
    if "mutex s \<noteq> None"
  proof -
    from that obtain u where u: "mutex s = Some u" by auto
    from holder_can_step [OF T u nd] show ?thesis by blast
  qed
  have mainfree: "\<exists>t s'. t \<noteq> Destroyer \<and> step body (Step t) s = Some s'"
    if "mainMutex s \<noteq> None"
  proof -
    from that obtain u where u: "mainMutex s = Some u" by auto
    from main_holder_can_step [OF T u] show ?thesis by blast
  qed
  have W: "Worker \<noteq> Destroyer" by simp
  show ?thesis
  proof (cases "pcs s Worker")
    case Idle
    with assms(3) show ?thesis by simp
  next
    case Dequeue
    show ?thesis
    proof (cases "mutex s = None")
      case True
      with Dequeue have "step body Wk s = Some (setpc Worker Locked (s\<lparr>mutex := Some Worker\<rparr>))"
        by simp
      with W show ?thesis by blast
    next
      case False
      then show ?thesis by (rule bgfree)
    qed
  next
    case Locked
    then have "\<exists>s'. step body Wk s = Some s'"
      by (auto simp: dequeueBg_def split: option.splits)
    with W show ?thesis by blast
  next
    case Waiting
    with wk d assms(2) have "notifiers s \<noteq> {}"
      by (simp add: wakeInv_def)
    then obtain u where u: "isNotify (pcs s u)" by (auto simp: notifiers_def)
    then obtain cs where cs: "pcs s u = Notify cs"
      by (cases "pcs s u") auto
    from T [of u] cs have "u \<noteq> Destroyer"
      by (cases u) (auto simp: threadInv_def)
    moreover from this cs have "\<exists>s'. step body (Step u) s = Some s'"
      by (cases u) auto
    ultimately show ?thesis by blast
  next
    case (Body cs)
    show ?thesis
    proof (cases cs)
      case Nil
      with Body have "\<exists>s'. step body Wk s = Some s'" by simp
      with W show ?thesis by blast
    next
      case (Cons c cs')
      show ?thesis
      proof (cases c)
        case (RunOnBgThread f)
        show ?thesis
        proof (cases "mutex s = None")
          case True
          with Body Cons RunOnBgThread have "\<exists>s'. step body Wk s = Some s'" by simp
          with W show ?thesis by blast
        next
          case False
          then show ?thesis by (rule bgfree)
        qed
      next
        case (RunOnMain f)
        show ?thesis
        proof (cases "mainMutex s = None")
          case True
          with Body Cons RunOnMain have "\<exists>s'. step body Wk s = Some s'" by simp
          with W show ?thesis by blast
        next
          case False
          then show ?thesis by (rule mainfree)
        qed
      qed
    qed
  next
    case (Emplace c cs)
    then have "\<exists>s'. step body Wk s = Some s'"
      by (cases c) (auto simp: Let_def)
    with W show ?thesis by blast
  next
    case (Notify cs)
    then have "\<exists>s'. step body Wk s = Some s'" by simp
    with W show ?thesis by blast
  next
    case (Request cs)
    then have "\<exists>s'. step body Wk s = Some s'" by simp
    with W show ?thesis by blast
  qed
qed





section \<open>Whole calls as steps\<close>



lemma fold_runOnMain_set:
  "scheduledToRunOnMain s \<Longrightarrow>
   pumpRequests (fold runOnMain fs s) = pumpRequests s \<and>
   scheduledToRunOnMain (fold runOnMain fs s) \<and>
   mainTasks (fold runOnMain fs s) = mainTasks s @ fs"
  by (induction fs arbitrary: s) (simp_all add: runOnMain_def Let_def)

lemma fold_runOnMain_clear:
  assumes "\<not> scheduledToRunOnMain s" "fs \<noteq> []"
  shows "pumpRequests (fold runOnMain fs s) = Suc (pumpRequests s) \<and>
         scheduledToRunOnMain (fold runOnMain fs s) \<and>
         mainTasks (fold runOnMain fs s) = mainTasks s @ fs"
proof -
  from assms(2) obtain f fs' where fs: "fs = f # fs'" by (cases fs) auto
  have s: "scheduledToRunOnMain (runOnMain f s)"
    "pumpRequests (runOnMain f s) = Suc (pumpRequests s)"
    "mainTasks (runOnMain f s) = mainTasks s @ [f]"
    using assms(1) by (simp_all add: runOnMain_def Let_def)
  from fold_runOnMain_set [OF s(1), of fs'] s fs show ?thesis by simp
qed

lemma runOnMain_atomic:
  assumes "pcs s (Caller n) = Idle" "mainMutex s = None"
  shows "exec body (Invoke n (RunOnMain f) # Cl n # Cl n #
                    (if scheduledToRunOnMain s then [Cl n] else [Cl n, Cl n])) s =
           Some (runOnMain f s)"
proof -
  have a: "(pcs s)(Caller n := Idle) = pcs s"
    using assms(1) by (simp add: fun_upd_idem)
  show ?thesis
    using assms a
    by (simp add: runOnMain_def setpc_def emplaceMain_def requestPump_def Let_def)
qed

section \<open>Runs with a single submitting thread\<close>


lemma noBg_loopTest: "list_all (\<lambda>c. \<not> isBg c) (body k) \<Longrightarrow> noBg (loopTest body (Fn k))"
  by simp

lemma inflight_single [simp]: "inflight (Body [c]) = bgInvoked [Invoke n c]"
  by (cases c) simp_all






section \<open>Evaluating concrete runs\<close>

lemmas run_simps = init_def setpc_def notify_one_def emplaceBg_def emplaceMain_def
  requestPump_def dequeueBg_def dequeueMain_def task5_def

section \<open>The claims\<close>

subsection \<open>C1: one pump request for each time the flag is set\<close>

text \<open>
  Claim C1. A sequence of one or more calls of \<^verbatim>\<open>runOnMain\<close> that starts with the
  dispatch flag clear issues exactly one pump request and leaves the flag set; a call
  made with the flag set issues none; in both cases the task is appended to the main
  queue. (An uninterrupted call is the three or four steps of the caller.) With other
  threads interleaved the same holds step by step: a thread that finishes its critical
  section with the flag set returns to its code without requesting, one that finds the
  flag clear sets it and issues one request, and nothing else ever changes the number
  of requests. While the flag is set and no empty function has been dequeued, a
  dispatch is outstanding: a request is being issued or is pending, or
  \<^verbatim>\<open>runMainTasks\<close> is running. When \<^verbatim>\<open>runMainTasks\<close> returns without having met an empty
  function, every task pushed so far, whatever the flag was when it was pushed, has been
  dequeued and executed.
\<close>

theorem main_dispatch_debounced:
  "(\<not> scheduledToRunOnMain s \<and> fs \<noteq> [] \<longrightarrow>
      pumpRequests (fold runOnMain fs s) = Suc (pumpRequests s) \<and>
      scheduledToRunOnMain (fold runOnMain fs s) \<and>
      mainTasks (fold runOnMain fs s) = mainTasks s @ fs) \<and>
   (scheduledToRunOnMain s \<longrightarrow>
      pumpRequests (runOnMain f s) = pumpRequests s \<and>
      scheduledToRunOnMain (runOnMain f s) \<and>
      mainTasks (runOnMain f s) = mainTasks s @ [f]) \<and>
   (pcs s (Caller n) = Idle \<and> mainMutex s = None \<longrightarrow>
      exec body (Invoke n (RunOnMain f) # Cl n # Cl n #
                 (if scheduledToRunOnMain s then [Cl n] else [Cl n, Cl n])) s =
        Some (runOnMain f s)) \<and>
   (pcs s t = Emplace (RunOnMain f) cs \<and> t \<noteq> Destroyer \<and> scheduledToRunOnMain s \<longrightarrow>
      step body (Step t) s =
        Some (setpc t (Body cs) ((emplaceMain f s)\<lparr>mainMutex := None\<rparr>))) \<and>
   (pcs s t = Emplace (RunOnMain f) cs \<and> t \<noteq> Destroyer \<and> \<not> scheduledToRunOnMain s \<longrightarrow>
      exec body [Step t, Step t] s =
        Some (setpc t (Body cs)
               (requestPump ((emplaceMain f s)\<lparr>scheduledToRunOnMain := True,
                                                mainMutex := None\<rparr>)))) \<and>
   (step body e s = Some s' \<and> pumpRequests s' \<noteq> pumpRequests s \<longrightarrow>
      (\<exists>u cs. e = Step u \<and> pcs s u = Request cs) \<and> pumpRequests s' = Suc (pumpRequests s)) \<and>
   (reach body s \<and> scheduledToRunOnMain s \<and> Null \<notin> set (mainPopped s) \<longrightarrow>
      requesters s \<noteq> {} \<or> 0 < pumpPending s \<or> pcs s MainCtx \<noteq> Idle) \<and>
   (reach body s \<and> step body Mn s = Some s' \<and> pcs s' MainCtx = Idle \<and>
    Null \<notin> set (mainPopped s') \<longrightarrow>
      mainTasks s' = [] \<and> mainExecuted s' = mainPushed s' \<and>
      mainFinished s' = length (mainPushed s'))"
proof (intro conjI impI)
  assume "\<not> scheduledToRunOnMain s \<and> fs \<noteq> []"
  then have "pumpRequests (fold runOnMain fs s) = Suc (pumpRequests s) \<and>
         scheduledToRunOnMain (fold runOnMain fs s) \<and>
         mainTasks (fold runOnMain fs s) = mainTasks s @ fs"
    using fold_runOnMain_clear by blast
  then show "pumpRequests (fold runOnMain fs s) = Suc (pumpRequests s)"
    "scheduledToRunOnMain (fold runOnMain fs s)"
    "mainTasks (fold runOnMain fs s) = mainTasks s @ fs"
    by blast+
next
  assume a: "scheduledToRunOnMain s"
  then show "pumpRequests (runOnMain f s) = pumpRequests s"
    "scheduledToRunOnMain (runOnMain f s)"
    "mainTasks (runOnMain f s) = mainTasks s @ [f]"
    by (simp_all add: runOnMain_def Let_def)
next
  assume "pcs s (Caller n) = Idle \<and> mainMutex s = None"
  then show "exec body (Invoke n (RunOnMain f) # Cl n # Cl n #
                 (if scheduledToRunOnMain s then [Cl n] else [Cl n, Cl n])) s =
        Some (runOnMain f s)"
    using runOnMain_atomic by blast
next
  assume "pcs s t = Emplace (RunOnMain f) cs \<and> t \<noteq> Destroyer \<and> scheduledToRunOnMain s"
  then show "step body (Step t) s =
        Some (setpc t (Body cs) ((emplaceMain f s)\<lparr>mainMutex := None\<rparr>))"
    by (cases t) (simp_all add: Let_def)
next
  assume "pcs s t = Emplace (RunOnMain f) cs \<and> t \<noteq> Destroyer \<and> \<not> scheduledToRunOnMain s"
  then show "exec body [Step t, Step t] s =
        Some (setpc t (Body cs)
               (requestPump ((emplaceMain f s)\<lparr>scheduledToRunOnMain := True,
                                                mainMutex := None\<rparr>)))"
    by (cases t) (simp_all add: Let_def setpc_def requestPump_def)
next
  assume a: "step body e s = Some s' \<and> pumpRequests s' \<noteq> pumpRequests s"
  then have st: "step body e s = Some s'" by blast
  from st have "(\<exists>u cs. e = Step u \<and> pcs s u = Request cs) \<and>
      pumpRequests s' = Suc (pumpRequests s)"
    by (cases rule: step_cases) (use a in auto)
  then show "\<exists>u cs. e = Step u \<and> pcs s u = Request cs"
    "pumpRequests s' = Suc (pumpRequests s)"
    by blast+
next
  assume a: "reach body s \<and> scheduledToRunOnMain s \<and> Null \<notin> set (mainPopped s)"
  with reach_inv [of body s] have "dispatchInv s" by (simp add: inv_def)
  with a show "requesters s \<noteq> {} \<or> 0 < pumpPending s \<or> pcs s MainCtx \<noteq> Idle"
    by (simp add: dispatchInv_def)
next
  assume a: "reach body s \<and> step body Mn s = Some s' \<and> pcs s' MainCtx = Idle \<and>
    Null \<notin> set (mainPopped s')"
  then have "mainTasks s = [] \<and> mainTasks s' = [] \<and> mainExecuted s' = mainPushed s' \<and>
         mainFinished s' = length (mainPushed s') \<and> \<not> scheduledToRunOnMain s'"
    using main_return [of body s s'] by blast
  then show "mainTasks s' = []" "mainExecuted s' = mainPushed s'"
    "mainFinished s' = length (mainPushed s')"
    by blast+
qed

text \<open>
  The chain of \<^verbatim>\<open>runTask5\<close> again: at \<open>sE\<close> the worker, executing task 2, is inside
  \<^verbatim>\<open>runOnMain\<close> for task 3 while the drain that executes task 1 is running and the flag
  is set; its submission is coalesced and task 3 is executed before the drain returns.
\<close>

lemma debounce_run:
  "\<exists>sE sF s s'.
     exec task5 [Invoke 0 (RunOnBgThread (Fn 0)), Cl 0, Cl 0, Cl 0, Cl 0,
                 Wk, Wk, Wk, Wk, Wk, Wk, Pump, Mn,
                 Mn, Mn, Mn, Mn, Wk, Wk, Wk] init = Some sE \<and>
     step task5 Wk sE = Some sF \<and>
     exec task5 [Wk, Mn, Mn, Mn, Mn, Mn] sF = Some s \<and>
     step task5 Mn s = Some s' \<and>
     pcs sE Worker = Emplace (RunOnMain (Fn 3)) [] \<and> scheduledToRunOnMain sE \<and>
     pcs sE MainCtx = Body [] \<and> pumpRequests sE = 1 \<and> mainPopped sE = [Fn 1] \<and>
     pcs s' MainCtx = Idle \<and> mainPopped s' = [Fn 1, Fn 3] \<and>
     mainPushed s' = [Fn 1, Fn 3] \<and> pumpRequests s' = 1"
  by (simp add: run_simps)

theorem main_dispatch_debounced_witness:
  "\<exists>sE sF s s'.
     exec task5 [Invoke 0 (RunOnBgThread (Fn 0)), Cl 0, Cl 0, Cl 0, Cl 0,
                 Wk, Wk, Wk, Wk, Wk, Wk, Pump, Mn,
                 Mn, Mn, Mn, Mn, Wk, Wk, Wk] init = Some sE \<and>
     step task5 Wk sE = Some sF \<and>
     exec task5 [Wk, Mn, Mn, Mn, Mn, Mn] sF = Some s \<and>
     step task5 Mn s = Some s' \<and>
     pumpRequests (fold runOnMain [Fn 5, Fn 6, Fn 7] init) = 1 \<and>
     mainTasks (fold runOnMain [Fn 5, Fn 6, Fn 7] init) = [Fn 5, Fn 6, Fn 7] \<and>
     exec task5 [Invoke 0 (RunOnMain (Fn 5)), Cl 0, Cl 0, Cl 0, Cl 0] init =
       Some (runOnMain (Fn 5) init) \<and>
     pumpRequests (runOnMain (Fn 6) (runOnMain (Fn 5) init)) =
       pumpRequests (runOnMain (Fn 5) init) \<and>
     pcs sE MainCtx = Body [] \<and> pumpRequests sE = 1 \<and>
     sF = setpc Worker (Body []) ((emplaceMain (Fn 3) sE)\<lparr>mainMutex := None\<rparr>) \<and>
     pumpRequests s' = 1 \<and> mainExecuted s' = [Fn 1, Fn 3] \<and> mainFinished s' = 2"
proof -
  from debounce_run obtain sE sF s s' where
    r: "exec task5 [Invoke 0 (RunOnBgThread (Fn 0)), Cl 0, Cl 0, Cl 0, Cl 0,
                 Wk, Wk, Wk, Wk, Wk, Wk, Pump, Mn,
                 Mn, Mn, Mn, Mn, Wk, Wk, Wk] init = Some sE"
      "step task5 Wk sE = Some sF"
      "exec task5 [Wk, Mn, Mn, Mn, Mn, Mn] sF = Some s"
      "step task5 Mn s = Some s'" and
    fE: "pcs sE Worker = Emplace (RunOnMain (Fn 3)) []" "scheduledToRunOnMain sE"
      "pcs sE MainCtx = Body []" "pumpRequests sE = 1" "mainPopped sE = [Fn 1]" and
    f: "pcs s' MainCtx = Idle" "mainPopped s' = [Fn 1, Fn 3]"
      "mainPushed s' = [Fn 1, Fn 3]" "pumpRequests s' = 1"
    by blast
  have rE: "reach task5 sE" using exec_reach [OF reach_init r(1)] .
  have rF: "reach task5 sF" using reach_step [OF rE r(2)] .
  have rs: "reach task5 s" using exec_reach [OF rF r(3)] .
  have i: "\<not> scheduledToRunOnMain init" "pcs init (Caller 0) = Idle" "mainMutex init = None"
    "pumpRequests init = 0" "mainTasks init = []"
    by (simp_all add: init_def)
  have ne: "[Fn 5, Fn 6, Fn 7] \<noteq> []" by simp
  note T = main_dispatch_debounced [where body = task5]
  from T [where s = init and fs = "[Fn 5, Fn 6, Fn 7]"] i(1) ne have
    a: "pumpRequests (fold runOnMain [Fn 5, Fn 6, Fn 7] init) = Suc (pumpRequests init)"
      "mainTasks (fold runOnMain [Fn 5, Fn 6, Fn 7] init) = mainTasks init @ [Fn 5, Fn 6, Fn 7]"
    by blast+
  from T [where s = init and n = 0 and f = "Fn 5"] i(2,3) have
    "exec task5 (Invoke 0 (RunOnMain (Fn 5)) # Cl 0 # Cl 0 #
                 (if scheduledToRunOnMain init then [Cl 0] else [Cl 0, Cl 0])) init =
        Some (runOnMain (Fn 5) init)"
    by blast
  with i(1) have b: "exec task5 [Invoke 0 (RunOnMain (Fn 5)), Cl 0, Cl 0, Cl 0, Cl 0] init =
       Some (runOnMain (Fn 5) init)"
    by (simp del: exec.simps)
  from T [where s = init and fs = "[Fn 5]"] i(1) have
    "scheduledToRunOnMain (fold runOnMain [Fn 5] init)" by blast
  then have "scheduledToRunOnMain (runOnMain (Fn 5) init)" by simp
  with T [where s = "runOnMain (Fn 5) init" and f = "Fn 6"] have
    c: "pumpRequests (runOnMain (Fn 6) (runOnMain (Fn 5) init)) =
       pumpRequests (runOnMain (Fn 5) init)"
    by blast
  have w: "Worker \<noteq> Destroyer" by simp
  from T [where s = sE and t = Worker and f = "Fn 3" and cs = "[]"] fE(1,2) w have
    "step task5 Wk sE =
        Some (setpc Worker (Body []) ((emplaceMain (Fn 3) sE)\<lparr>mainMutex := None\<rparr>))"
    by blast
  with r(2) have d: "sF = setpc Worker (Body []) ((emplaceMain (Fn 3) sE)\<lparr>mainMutex := None\<rparr>)"
    by (simp del: step.simps)
  have nn: "Null \<notin> set (mainPopped s')" using f(2) by simp
  from T [where s = s and s' = s'] rs r(4) f(1) nn have
    e: "mainExecuted s' = mainPushed s'" "mainFinished s' = length (mainPushed s')"
    by blast+
  with f(3) have e': "mainExecuted s' = [Fn 1, Fn 3]" "mainFinished s' = 2"
    by simp_all
  from a i(4,5) have a': "pumpRequests (fold runOnMain [Fn 5, Fn 6, Fn 7] init) = 1"
    "mainTasks (fold runOnMain [Fn 5, Fn 6, Fn 7] init) = [Fn 5, Fn 6, Fn 7]"
    by simp_all
  from r a' b c fE(3,4) d f(4) e' show ?thesis
    by (metis (no_types))
qed

subsection \<open>C2: the background queue is first in, first out\<close>




subsection \<open>C3: shutdown drains the background queue\<close>




subsection \<open>C4: the drain loop of \<^verbatim>\<open>runMainTasks\<close>\<close>

text \<open>
  Claim C4. Inside \<^verbatim>\<open>runMainTasks\<close> the main context, holding \<^verbatim>\<open>_mainMutex\<close> in
  \<^verbatim>\<open>dequeueMain\<close>, clears the dispatch flag, unlocks and returns when the main queue is
  empty; otherwise it pops the front task, unlocks and starts the task's body, which
  runs with neither mutex held; when the body has returned it calls \<^verbatim>\<open>dequeueMain\<close>
  again. Whenever a call of \<^verbatim>\<open>runMainTasks\<close> returns without having met an empty
  function, the queue was observed empty, the flag is clear and every task ever pushed
  on the main queue has been executed and has returned; in particular the tasks that
  were queued at any earlier state \<open>s0\<close>, and those pushed between \<open>s0\<close> and the return,
  were executed between \<open>s0\<close> and the return, in the order of their pushes.
\<close>

theorem runMainTasks_drains:
  "(pcs s MainCtx = Locked \<and> mainTasks s = [] \<longrightarrow>
      step body Mn s =
        Some (setpc MainCtx Idle (s\<lparr>scheduledToRunOnMain := False, mainMutex := None\<rparr>))) \<and>
   (pcs s MainCtx = Locked \<and> mainTasks s = Fn k # q \<longrightarrow>
      step body Mn s =
        Some (setpc MainCtx (Body (body k))
               (s\<lparr>mainTasks := q, mainPopped := mainPopped s @ [Fn k], mainMutex := None\<rparr>))) \<and>
   (pcs s MainCtx = Body [] \<longrightarrow>
      step body Mn s = Some (setpc MainCtx Dequeue (s\<lparr>mainFinished := Suc (mainFinished s)\<rparr>))) \<and>
   (reach body s \<and> pcs s MainCtx = Locked \<longrightarrow> mainMutex s = Some MainCtx) \<and>
   (reach body s \<and> pcs s MainCtx = Body cs \<longrightarrow>
      mainMutex s \<noteq> Some MainCtx \<and> mutex s \<noteq> Some MainCtx) \<and>
   (reach body s \<and> step body Mn s = Some s' \<and> pcs s' MainCtx = Idle \<and>
    Null \<notin> set (mainPopped s') \<longrightarrow>
      mainTasks s = [] \<and> \<not> scheduledToRunOnMain s' \<and> mainExecuted s' = mainPushed s' \<and>
      mainFinished s' = length (mainPushed s')) \<and>
   (reach body s0 \<and> exec body es s0 = Some s \<and> step body Mn s = Some s' \<and>
    pcs s' MainCtx = Idle \<and> Null \<notin> set (mainPopped s') \<longrightarrow>
      mainExecuted s' =
        mainExecuted s0 @ mainTasks s0 @ drop (length (mainPushed s0)) (mainPushed s'))"
proof (intro conjI impI)
  assume "pcs s MainCtx = Locked \<and> mainTasks s = []"
  then show "step body Mn s =
      Some (setpc MainCtx Idle (s\<lparr>scheduledToRunOnMain := False, mainMutex := None\<rparr>))"
    by (simp add: dequeueMain_def)
next
  assume "pcs s MainCtx = Locked \<and> mainTasks s = Fn k # q"
  then show "step body Mn s =
      Some (setpc MainCtx (Body (body k))
             (s\<lparr>mainTasks := q, mainPopped := mainPopped s @ [Fn k], mainMutex := None\<rparr>))"
    by (simp add: dequeueMain_def)
next
  assume "pcs s MainCtx = Body []"
  then show "step body Mn s =
      Some (setpc MainCtx Dequeue (s\<lparr>mainFinished := Suc (mainFinished s)\<rparr>))"
    by simp
next
  assume a: "reach body s \<and> pcs s MainCtx = Locked"
  then have "threadInv s MainCtx"
    by (blast intro: reach_threadInv)
  with a show "mainMutex s = Some MainCtx"
    by (simp add: threadInv_def)
next
  assume a: "reach body s \<and> pcs s MainCtx = Body cs"
  then have "threadInv s MainCtx"
    by (blast intro: reach_threadInv)
  with a show "mainMutex s \<noteq> Some MainCtx"
    by (simp add: threadInv_def)
  from a \<open>threadInv s MainCtx\<close> show "mutex s \<noteq> Some MainCtx"
    by (simp add: threadInv_def)
next
  assume a: "reach body s \<and> step body Mn s = Some s' \<and> pcs s' MainCtx = Idle \<and>
    Null \<notin> set (mainPopped s')"
  then have "mainTasks s = [] \<and> mainTasks s' = [] \<and> mainExecuted s' = mainPushed s' \<and>
         mainFinished s' = length (mainPushed s') \<and> \<not> scheduledToRunOnMain s'"
    using main_return [of body s s'] by blast
  then show "mainTasks s = []" "\<not> scheduledToRunOnMain s'" "mainExecuted s' = mainPushed s'"
    "mainFinished s' = length (mainPushed s')"
    by blast+
next
  assume a: "reach body s0 \<and> exec body es s0 = Some s \<and> step body Mn s = Some s' \<and>
    pcs s' MainCtx = Idle \<and> Null \<notin> set (mainPopped s')"
  then have r: "reach body s" using exec_reach by blast
  with a have ret: "mainExecuted s' = mainPushed s'"
    using main_return [of body s s'] by blast
  have "exec body [Mn] s = step body Mn s"
    by (simp split: option.splits)
  with a have e: "exec body (es @ [Mn]) s0 = Some s'"
    by (simp add: exec_append del: step.simps)
  from exec_grows(3,4) [OF e] have
    p: "prefix (mainPushed s0) (mainPushed s')" "prefix (mainPopped s0) (mainPopped s')" .
  from p(2) a have "Null \<notin> set (mainPopped s0)"
    using set_mono_prefix by blast
  then have x: "mainExecuted s0 = mainPopped s0"
    by (simp add: mainExecuted_def filter_callable_id)
  from a reach_inv [of body s0] have "fifoInv s0" by (simp add: inv_def)
  then have f: "mainPushed s0 = mainPopped s0 @ mainTasks s0"
    by (simp add: fifoInv_def)
  from prefix_drop [OF p(1)] have
    "mainPushed s' = mainPushed s0 @ drop (length (mainPushed s0)) (mainPushed s')" .
  with ret x f show "mainExecuted s' =
      mainExecuted s0 @ mainTasks s0 @ drop (length (mainPushed s0)) (mainPushed s')"
    by (metis append.assoc)
qed

text \<open>
  The chain of \<^verbatim>\<open>runTask5\<close>: while the main context executes task 1, the worker
  executes task 2, which pushes task 3 on the main queue; the same call of
  \<^verbatim>\<open>runMainTasks\<close> executes task 3 before it returns, and one pump request was issued.
\<close>

lemma task5_drain_run:
  "\<exists>s0 s s'.
     exec task5 [Invoke 0 (RunOnBgThread (Fn 0)), Cl 0, Cl 0, Cl 0, Cl 0,
                 Wk, Wk, Wk, Wk, Wk, Wk, Pump, Mn] init = Some s0 \<and>
     exec task5 [Mn, Mn, Mn, Mn, Wk, Wk, Wk, Wk, Wk, Mn, Mn, Mn, Mn, Mn] s0 = Some s \<and>
     step task5 Mn s = Some s' \<and>
     pcs s0 MainCtx = Locked \<and> mainTasks s0 = [Fn 1] \<and> mainPushed s0 = [Fn 1] \<and>
     mainPopped s0 = [] \<and> pcs s MainCtx = Locked \<and> mainTasks s = [] \<and>
     pcs s' MainCtx = Idle \<and> mainPopped s' = [Fn 1, Fn 3] \<and> mainPushed s' = [Fn 1, Fn 3] \<and>
     pumpRequests s' = 1"
  by (simp add: run_simps)

theorem runMainTasks_drains_witness:
  "\<exists>s0 s s'.
     exec task5 [Invoke 0 (RunOnBgThread (Fn 0)), Cl 0, Cl 0, Cl 0, Cl 0,
                 Wk, Wk, Wk, Wk, Wk, Wk, Pump, Mn] init = Some s0 \<and>
     exec task5 [Mn, Mn, Mn, Mn, Wk, Wk, Wk, Wk, Wk, Mn, Mn, Mn, Mn, Mn] s0 = Some s \<and>
     step task5 Mn s = Some s' \<and>
     mainTasks s0 = [Fn 1] \<and> mainMutex s0 = Some MainCtx \<and>
     step task5 Mn s0 =
       Some (setpc MainCtx (Body (task5 1))
              (s0\<lparr>mainTasks := [], mainPopped := mainPopped s0 @ [Fn 1], mainMutex := None\<rparr>)) \<and>
     mainTasks s = [] \<and>
     s' = setpc MainCtx Idle (s\<lparr>scheduledToRunOnMain := False, mainMutex := None\<rparr>) \<and>
     pcs s' MainCtx = Idle \<and> \<not> scheduledToRunOnMain s' \<and>
     mainExecuted s' = [Fn 1, Fn 3] \<and> mainFinished s' = 2 \<and> pumpRequests s' = 1"
proof -
  from task5_drain_run obtain s0 s s' where
    r0: "exec task5 [Invoke 0 (RunOnBgThread (Fn 0)), Cl 0, Cl 0, Cl 0, Cl 0,
                 Wk, Wk, Wk, Wk, Wk, Wk, Pump, Mn] init = Some s0" and
    r1: "exec task5 [Mn, Mn, Mn, Mn, Wk, Wk, Wk, Wk, Wk, Mn, Mn, Mn, Mn, Mn] s0 = Some s" and
    r2: "step task5 Mn s = Some s'" and
    f0: "pcs s0 MainCtx = Locked" "mainTasks s0 = [Fn 1]" "mainPushed s0 = [Fn 1]"
      "mainPopped s0 = []" and
    f1: "pcs s MainCtx = Locked" "mainTasks s = []" and
    f2: "pcs s' MainCtx = Idle" "mainPopped s' = [Fn 1, Fn 3]" "mainPushed s' = [Fn 1, Fn 3]"
      "pumpRequests s' = 1"
    by blast
  have reach0: "reach task5 s0"
    using exec_reach [OF reach_init r0] .
  have reach1: "reach task5 s"
    using exec_reach [OF reach0 r1] .
  have nn: "Null \<notin> set (mainPopped s')"
    using f2(2) by simp
  note T0 = runMainTasks_drains [where s = s0 and body = task5 and k = 1 and q = "[]"]
  note T1 = runMainTasks_drains [where s = s and body = task5 and s' = s' and ?s0.0 = s0
      and es = "[Mn, Mn, Mn, Mn, Wk, Wk, Wk, Wk, Wk, Mn, Mn, Mn, Mn, Mn]"]
  from T0 f0 reach0 have
    a: "step task5 Mn s0 =
       Some (setpc MainCtx (Body (task5 1))
              (s0\<lparr>mainTasks := [], mainPopped := mainPopped s0 @ [Fn 1], mainMutex := None\<rparr>))"
    and b: "mainMutex s0 = Some MainCtx"
    by blast+
  from T1 f1 have
    c: "step task5 Mn s =
       Some (setpc MainCtx Idle (s\<lparr>scheduledToRunOnMain := False, mainMutex := None\<rparr>))"
    by blast
  with r2 have c': "s' = setpc MainCtx Idle (s\<lparr>scheduledToRunOnMain := False, mainMutex := None\<rparr>)"
    by simp
  from T1 reach1 r2 f2(1) nn have
    d: "\<not> scheduledToRunOnMain s'" "mainExecuted s' = mainPushed s'"
      "mainFinished s' = length (mainPushed s')"
    by blast+
  from T1 reach0 r1 r2 f2(1) nn have
    g: "mainExecuted s' =
          mainExecuted s0 @ mainTasks s0 @ drop (length (mainPushed s0)) (mainPushed s')"
    by blast
  from g d(3) f0 f2(3) have e: "mainExecuted s' = [Fn 1, Fn 3]" "mainFinished s' = 2"
    by (simp_all add: mainExecuted_def)
  from r0 r1 r2 f0(2) b a f1(2) c' f2(1) d(1) e f2(4) show ?thesis
    by blast
qed

subsection \<open>C5: which submitted tasks are executed\<close>






subsection \<open>C6: what is held while tasks run and while they submit\<close>

text \<open>
  Claim C6. In every reachable state: no thread owns \<^verbatim>\<open>_mutex\<close> and \<^verbatim>\<open>_mainMutex\<close> at
  the same time; a thread that is running the code of a task body between two calls
  (in particular when the body starts, and when it is about to submit) owns neither
  mutex; inside a submission a thread owns exactly the mutex of the queue it submits
  to, from the lock to the unlock, and owns nothing afterwards while it notifies or
  requests the pump; inside a dequeue function the worker owns only \<^verbatim>\<open>_mutex\<close> and the
  main context only \<^verbatim>\<open>_mainMutex\<close>; and the step that leaves the dequeue function,
  whatever it dequeued, has released that mutex.
\<close>

theorem lock_discipline:
  assumes "reach body s"
  shows "(\<forall>t. \<not> (mutex s = Some t \<and> mainMutex s = Some t)) \<and>
         (\<forall>t cs. pcs s t = Body cs \<longrightarrow> mutex s \<noteq> Some t \<and> mainMutex s \<noteq> Some t) \<and>
         (\<forall>t f cs. pcs s t = Emplace (RunOnBgThread f) cs \<longrightarrow>
            mutex s = Some t \<and> mainMutex s \<noteq> Some t) \<and>
         (\<forall>t f cs. pcs s t = Emplace (RunOnMain f) cs \<longrightarrow>
            mainMutex s = Some t \<and> mutex s \<noteq> Some t) \<and>
         (\<forall>t cs. pcs s t = Notify cs \<or> pcs s t = Request cs \<longrightarrow>
            mutex s \<noteq> Some t \<and> mainMutex s \<noteq> Some t) \<and>
         (pcs s Worker = Locked \<longrightarrow> mutex s = Some Worker \<and> mainMutex s \<noteq> Some Worker) \<and>
         (pcs s MainCtx = Locked \<longrightarrow> mainMutex s = Some MainCtx \<and> mutex s \<noteq> Some MainCtx) \<and>
         (\<forall>s'. pcs s Worker = Locked \<and> step body Wk s = Some s' \<longrightarrow>
            mutex s' = None \<and> mainMutex s' \<noteq> Some Worker) \<and>
         (\<forall>s'. pcs s MainCtx = Locked \<and> step body Mn s = Some s' \<longrightarrow>
            mainMutex s' = None \<and> mutex s' \<noteq> Some MainCtx)"
proof -
  have T: "threadInv s t" for t
    using assms by (rule reach_threadInv)
  have both: "\<not> (inBg t p \<and> inMain t p)" for t p
    by (cases "(t, p)" rule: inBg.cases) auto
  have 1: "\<forall>t. \<not> (mutex s = Some t \<and> mainMutex s = Some t)"
  proof (intro allI notI)
    fix t
    assume a: "mutex s = Some t \<and> mainMutex s = Some t"
    with T [of t] have "inMain t (pcs s t)"
      and "inBg t (pcs s t) \<or> (t = Destroyer \<and> destructor s = DSetDone)"
      by (simp_all add: threadInv_def)
    moreover from T [of Destroyer] have "pcs s Destroyer = Idle"
      by (simp add: threadInv_def)
    ultimately show False using both [of t "pcs s t"] by auto
  qed
  have 2: "\<forall>t cs. pcs s t = Body cs \<longrightarrow> mutex s \<noteq> Some t \<and> mainMutex s \<noteq> Some t"
  proof (intro allI)
    fix t cs
    from T [of t] show "pcs s t = Body cs \<longrightarrow> mutex s \<noteq> Some t \<and> mainMutex s \<noteq> Some t"
      by (auto simp: threadInv_def)
  qed
  have 3: "\<forall>t f cs. pcs s t = Emplace (RunOnBgThread f) cs \<longrightarrow>
            mutex s = Some t \<and> mainMutex s \<noteq> Some t"
  proof (intro allI)
    fix t f cs
    from T [of t] show "pcs s t = Emplace (RunOnBgThread f) cs \<longrightarrow>
            mutex s = Some t \<and> mainMutex s \<noteq> Some t"
      by (auto simp: threadInv_def)
  qed
  have 4: "\<forall>t f cs. pcs s t = Emplace (RunOnMain f) cs \<longrightarrow>
            mainMutex s = Some t \<and> mutex s \<noteq> Some t"
  proof (intro allI)
    fix t f cs
    from T [of t] show "pcs s t = Emplace (RunOnMain f) cs \<longrightarrow>
            mainMutex s = Some t \<and> mutex s \<noteq> Some t"
      by (auto simp: threadInv_def)
  qed
  have 5: "\<forall>t cs. pcs s t = Notify cs \<or> pcs s t = Request cs \<longrightarrow>
            mutex s \<noteq> Some t \<and> mainMutex s \<noteq> Some t"
  proof (intro allI)
    fix t cs
    from T [of t] show "pcs s t = Notify cs \<or> pcs s t = Request cs \<longrightarrow>
            mutex s \<noteq> Some t \<and> mainMutex s \<noteq> Some t"
      by (auto simp: threadInv_def)
  qed
  have 6: "pcs s Worker = Locked \<longrightarrow> mutex s = Some Worker \<and> mainMutex s \<noteq> Some Worker"
    using T [of Worker] by (auto simp: threadInv_def)
  have 7: "pcs s MainCtx = Locked \<longrightarrow> mainMutex s = Some MainCtx \<and> mutex s \<noteq> Some MainCtx"
    using T [of MainCtx] by (auto simp: threadInv_def)
  have 8: "\<forall>s'. pcs s Worker = Locked \<and> step body Wk s = Some s' \<longrightarrow>
            mutex s' = None \<and> mainMutex s' \<noteq> Some Worker"
  proof (intro allI impI)
    fix s'
    assume a: "pcs s Worker = Locked \<and> step body Wk s = Some s'"
    then have st: "step body Wk s = Some s'" by blast
    from st show "mutex s' = None \<and> mainMutex s' \<noteq> Some Worker"
      by (cases rule: step_cases) (use a 6 in auto)
  qed
  have 9: "\<forall>s'. pcs s MainCtx = Locked \<and> step body Mn s = Some s' \<longrightarrow>
            mainMutex s' = None \<and> mutex s' \<noteq> Some MainCtx"
  proof (intro allI impI)
    fix s'
    assume a: "pcs s MainCtx = Locked \<and> step body Mn s = Some s'"
    then have st: "step body Mn s = Some s'" by blast
    from st show "mainMutex s' = None \<and> mutex s' \<noteq> Some MainCtx"
      by (cases rule: step_cases) (use a 7 in auto)
  qed
  from 1 2 3 4 5 6 7 8 9 show ?thesis by blast
qed

text \<open>
  A run of \<^verbatim>\<open>runTask5\<close> observed at three states: the caller inside \<^verbatim>\<open>runOnBgThread\<close>,
  the worker inside \<^verbatim>\<open>dequeueBg\<close>, and the worker at the start of the body of task 0.
\<close>

lemma lock_run:
  "\<exists>sA sB sC.
     exec task5 [Invoke 0 (RunOnBgThread (Fn 0)), Cl 0] init = Some sA \<and>
     exec task5 [Cl 0, Cl 0, Cl 0, Wk] sA = Some sB \<and>
     step task5 Wk sB = Some sC \<and>
     pcs sA (Caller 0) = Emplace (RunOnBgThread (Fn 0)) [] \<and>
     pcs sB Worker = Locked \<and> pcs sC Worker = Body [RunOnMain (Fn 1)]"
  by (simp add: run_simps)

theorem lock_discipline_witness:
  "\<exists>sA sB sC.
     exec task5 [Invoke 0 (RunOnBgThread (Fn 0)), Cl 0] init = Some sA \<and>
     exec task5 [Cl 0, Cl 0, Cl 0, Wk] sA = Some sB \<and>
     step task5 Wk sB = Some sC \<and>
     pcs sA (Caller 0) = Emplace (RunOnBgThread (Fn 0)) [] \<and>
     mutex sA = Some (Caller 0) \<and> mainMutex sA \<noteq> Some (Caller 0) \<and>
     pcs sB Worker = Locked \<and> mutex sB = Some Worker \<and> mainMutex sB \<noteq> Some Worker \<and>
     pcs sC Worker = Body [RunOnMain (Fn 1)] \<and> mutex sC = None \<and>
     mainMutex sC \<noteq> Some Worker"
proof -
  from lock_run obtain sA sB sC where
    r: "exec task5 [Invoke 0 (RunOnBgThread (Fn 0)), Cl 0] init = Some sA"
      "exec task5 [Cl 0, Cl 0, Cl 0, Wk] sA = Some sB"
      "step task5 Wk sB = Some sC" and
    f: "pcs sA (Caller 0) = Emplace (RunOnBgThread (Fn 0)) []"
      "pcs sB Worker = Locked" "pcs sC Worker = Body [RunOnMain (Fn 1)]"
    by blast
  have rA: "reach task5 sA" using exec_reach [OF reach_init r(1)] .
  have rB: "reach task5 sB" using exec_reach [OF rA r(2)] .
  have rC: "reach task5 sC" using reach_step [OF rB r(3)] .
  from lock_discipline [OF rA] f(1) have
    a: "mutex sA = Some (Caller 0)" "mainMutex sA \<noteq> Some (Caller 0)"
    by blast+
  from lock_discipline [OF rB] f(2) r(3) have
    b: "mutex sB = Some Worker" "mainMutex sB \<noteq> Some Worker" "mutex sC = None"
    by blast+
  from lock_discipline [OF rC] f(3) have
    c: "mainMutex sC \<noteq> Some Worker"
    by blast
  from r f a b c show ?thesis by blast
qed

subsection \<open>C7: what the destructor waits for\<close>

text \<open>
  Claim C7 says that, the worker being joined, no task runs against freed state. The
  join covers the worker only. In the run below \<^verbatim>\<open>runTask5\<close> is called, task 0 runs on
  the worker and submits task 1 to the main queue, which requests the pump; the
  destructor then sets \<^verbatim>\<open>_done\<close>, joins the worker and returns. The pump request is
  still pending: when it is honoured, \<^verbatim>\<open>runMainTasks\<close> dequeues task 1 from the
  destroyed scheduler and starts it, and the body of task 1 is about to call
  \<^verbatim>\<open>runOnBgThread\<close> on it. No call from outside was made after teardown began.
\<close>

theorem main_task_runs_after_destruction:
  "\<exists>s s'. exec task5 [Invoke 0 (RunOnBgThread (Fn 0)), Cl 0, Cl 0, Cl 0, Cl 0,
                      Wk, Wk, Wk, Wk, Wk, Wk,
                      Destroy, Ds, Ds, Ds, Wk, Wk, Ds] init = Some s \<and>
     destructor s = Destroyed \<and> pcs s MainCtx = Idle \<and> bgTasks s = [] \<and>
     mainTasks s = [Fn 1] \<and> mainExecuted s = [] \<and> pumpPending s = 1 \<and>
     exec task5 [Pump, Mn, Mn] s = Some s' \<and>
     destructor s' = Destroyed \<and> mainExecuted s' = [Fn 1] \<and> mainFinished s' = 0 \<and>
     pcs s' MainCtx = Body [RunOnBgThread (Fn 2)]"
  by (simp add: run_simps mainExecuted_def callable_def)

text \<open>
  Claim C7, as amended. The destructor cannot pass \<^verbatim>\<open>join\<close> while the worker is in its
  loop (and some other thread can then always take a step: the wait is never a
  deadlock), and passes it once the worker has exited. In every state in which the
  destructor has returned the worker has exited, \<^verbatim>\<open>_done\<close> is set and every background
  task that was started has returned; from then on the worker executes nothing, so no
  background task runs against freed state. Every task pushed on the background queue
  while the worker was still in its loop has been executed, provided the worker met no
  empty function, so no such task is dropped. The main context is not covered.
\<close>

theorem destructor_joins_worker:
  "(destructor s = DJoin \<and> pcs s Worker \<noteq> Idle \<longrightarrow> step body Ds s = None) \<and>
   (reach body s \<and> destructor s = DJoin \<and> pcs s Worker \<noteq> Idle \<longrightarrow>
      (\<exists>t s'. t \<noteq> Destroyer \<and> step body (Step t) s = Some s')) \<and>
   (destructor s = DJoin \<and> pcs s Worker = Idle \<longrightarrow>
      step body Ds s = Some (s\<lparr>destructor := Destroyed\<rparr>)) \<and>
   (reach body s \<and> destructor s = Destroyed \<longrightarrow>
      pcs s Worker = Idle \<and> doneFlag s \<and> bgFinished s = length (bgExecuted s)) \<and>
   (reach body s \<and> destructor s = Destroyed \<and> exec body es s = Some s' \<longrightarrow>
      pcs s' Worker = Idle \<and> bgExecuted s' = bgExecuted s \<and> bgFinished s' = bgFinished s) \<and>
   (reach body s1 \<and> pcs s1 Worker \<noteq> Idle \<and> exec body es s1 = Some s2 \<and>
    destructor s2 = Destroyed \<and> Null \<notin> set (bgPopped s2) \<longrightarrow>
      prefix (bgPushed s1) (bgExecuted s2))"
proof (intro conjI impI)
  assume "destructor s = DJoin \<and> pcs s Worker \<noteq> Idle"
  then show "step body Ds s = None" by simp
next
  assume "reach body s \<and> destructor s = DJoin \<and> pcs s Worker \<noteq> Idle"
  then show "\<exists>t s'. t \<noteq> Destroyer \<and> step body (Step t) s = Some s'"
    using join_not_deadlocked by blast
next
  assume "destructor s = DJoin \<and> pcs s Worker = Idle"
  then show "step body Ds s = Some (s\<lparr>destructor := Destroyed\<rparr>)" by simp
next
  assume a: "reach body s \<and> destructor s = Destroyed"
  with reach_workerInv [of body s] show "pcs s Worker = Idle" "doneFlag s"
    "bgFinished s = length (bgExecuted s)"
    by (simp_all add: workerInv_def)
next
  assume a: "reach body s \<and> destructor s = Destroyed \<and> exec body es s = Some s'"
  with reach_workerInv [of body s] have i: "pcs s Worker = Idle"
    by (simp add: workerInv_def)
  from a have ex: "exec body es s = Some s'" by blast
  from idle_worker_exec [OF ex i] show "pcs s' Worker = Idle" "bgExecuted s' = bgExecuted s"
    "bgFinished s' = bgFinished s"
    by (simp_all add: bgExecuted_def)
next
  assume a: "reach body s1 \<and> pcs s1 Worker \<noteq> Idle \<and> exec body es s1 = Some s2 \<and>
    destructor s2 = Destroyed \<and> Null \<notin> set (bgPopped s2)"
  then have r1: "reach body s1" and ex: "exec body es s1 = Some s2"
    and n1: "pcs s1 Worker \<noteq> Idle" and nn: "Null \<notin> set (bgPopped s2)" by blast+
  have r2: "reach body s2" using exec_reach [OF r1 ex] .
  from reach_workerInv [OF r2] a have i2: "pcs s2 Worker = Idle"
    by (simp add: workerInv_def)
  from worker_drains [OF ex r1 n1 i2 nn] nn
  show "prefix (bgPushed s1) (bgExecuted s2)"
    by (simp add: bgExecuted_def filter_callable_id)
qed

text \<open>
  The destructor reaches \<^verbatim>\<open>join\<close> while the worker is executing task 5; it is blocked
  until the worker has exited. A submission made after the destructor has returned
  stays in the queue.
\<close>

lemma join_run:
  "\<exists>s1 sj si s2 s3.
     exec task5 [Invoke 0 (RunOnBgThread (Fn 5)), Cl 0, Cl 0, Cl 0, Cl 0, Wk, Wk] init = Some s1 \<and>
     exec task5 [Destroy, Ds, Ds, Ds] s1 = Some sj \<and>
     exec task5 [Wk, Wk, Wk] sj = Some si \<and>
     step task5 Ds si = Some s2 \<and>
     exec task5 [Invoke 0 (RunOnBgThread (Fn 6)), Cl 0, Cl 0, Cl 0, Cl 0] s2 = Some s3 \<and>
     pcs s1 Worker = Body [] \<and> bgPushed s1 = [Fn 5] \<and>
     destructor sj = DJoin \<and> pcs sj Worker = Body [] \<and>
     destructor si = DJoin \<and> pcs si Worker = Idle \<and>
     bgPopped s2 = [Fn 5] \<and> bgTasks s3 = [Fn 6]"
  by (simp add: run_simps)

theorem destructor_joins_worker_witness:
  "\<exists>s1 sj si s2 s3.
     exec task5 [Invoke 0 (RunOnBgThread (Fn 5)), Cl 0, Cl 0, Cl 0, Cl 0, Wk, Wk] init = Some s1 \<and>
     exec task5 [Destroy, Ds, Ds, Ds] s1 = Some sj \<and>
     exec task5 [Wk, Wk, Wk] sj = Some si \<and>
     step task5 Ds si = Some s2 \<and>
     exec task5 [Invoke 0 (RunOnBgThread (Fn 6)), Cl 0, Cl 0, Cl 0, Cl 0] s2 = Some s3 \<and>
     step task5 Ds sj = None \<and> (\<exists>t s'. t \<noteq> Destroyer \<and> step task5 (Step t) sj = Some s') \<and>
     s2 = si\<lparr>destructor := Destroyed\<rparr> \<and>
     pcs s2 Worker = Idle \<and> doneFlag s2 \<and> bgFinished s2 = length (bgExecuted s2) \<and>
     prefix [Fn 5] (bgExecuted s2) \<and>
     pcs s3 Worker = Idle \<and> bgExecuted s3 = bgExecuted s2 \<and> bgTasks s3 = [Fn 6]"
proof -
  from join_run obtain s1 sj si s2 s3 where
    r: "exec task5 [Invoke 0 (RunOnBgThread (Fn 5)), Cl 0, Cl 0, Cl 0, Cl 0, Wk, Wk] init = Some s1"
      "exec task5 [Destroy, Ds, Ds, Ds] s1 = Some sj"
      "exec task5 [Wk, Wk, Wk] sj = Some si"
      "step task5 Ds si = Some s2"
      "exec task5 [Invoke 0 (RunOnBgThread (Fn 6)), Cl 0, Cl 0, Cl 0, Cl 0] s2 = Some s3" and
    f: "pcs s1 Worker = Body []" "bgPushed s1 = [Fn 5]"
      "destructor sj = DJoin" "pcs sj Worker = Body []"
      "destructor si = DJoin" "pcs si Worker = Idle"
      "bgPopped s2 = [Fn 5]" "bgTasks s3 = [Fn 6]"
    by blast
  have r1: "reach task5 s1" using exec_reach [OF reach_init r(1)] .
  have rj: "reach task5 sj" using exec_reach [OF r1 r(2)] .
  have ri: "reach task5 si" using exec_reach [OF rj r(3)] .
  have r2: "reach task5 s2" using reach_step [OF ri r(4)] .
  note T = destructor_joins_worker [where body = task5]
  have nj: "pcs sj Worker \<noteq> Idle" "pcs s1 Worker \<noteq> Idle"
    using f(1,4) by simp_all
  from T [where s = sj] f(3) nj(1) have a: "step task5 Ds sj = None"
    by blast
  from T [where s = sj] rj f(3) nj(1) have
    a': "\<exists>t s'. t \<noteq> Destroyer \<and> step task5 (Step t) sj = Some s'"
    by blast
  from T [where s = si] f(5,6) have "step task5 Ds si = Some (si\<lparr>destructor := Destroyed\<rparr>)"
    by blast
  with r(4) have b: "s2 = si\<lparr>destructor := Destroyed\<rparr>"
    by (simp del: step.simps)
  then have d2: "destructor s2 = Destroyed" by simp
  from T [where s = s2] r2 d2 have
    c: "pcs s2 Worker = Idle" "doneFlag s2" "bgFinished s2 = length (bgExecuted s2)"
    by blast+
  from T [where s = s2 and es = "[Invoke 0 (RunOnBgThread (Fn 6)), Cl 0, Cl 0, Cl 0, Cl 0]"
      and s' = s3] r2 d2 r(5) have
    d: "pcs s3 Worker = Idle" "bgExecuted s3 = bgExecuted s2"
    by blast+
  have "exec task5 [Ds] si = Some s2"
    using r(4) by (simp del: step.simps)
  with r(2,3) have e: "exec task5 ([Destroy, Ds, Ds, Ds] @ [Wk, Wk, Wk] @ [Ds]) s1 = Some s2"
    by (simp only: exec_append option.simps)
  have nn: "Null \<notin> set (bgPopped s2)" using f(7) by simp
  from T [where ?s1.0 = s1 and ?s2.0 = s2 and es = "[Destroy, Ds, Ds, Ds] @ [Wk, Wk, Wk] @ [Ds]"]
    r1 nj(2) e d2 nn have "prefix (bgPushed s1) (bgExecuted s2)"
    by blast
  with f(2) have g: "prefix [Fn 5] (bgExecuted s2)" by simp
  from r a a' b c g d f(8) show ?thesis
    by (metis (no_types))
qed

subsection \<open>C8: an empty function in the background queue\<close>

text \<open>
  Claim C8. When the worker, inside \<^verbatim>\<open>dequeueBg\<close>, finds an empty function at the front
  of the background queue, it pops it and its loop exits, whether or not \<^verbatim>\<open>_done\<close> is
  set. From then on, whatever happens, the worker stays outside its loop, nothing more
  is popped or executed, and every element submitted later only lengthens the queue
  behind the elements that were already waiting.
\<close>

theorem null_background_task_stops_worker:
  assumes "pcs s Worker = Locked" "bgTasks s = Null # q" "exec body (Wk # es) s = Some s'"
  shows "pcs s' Worker = Idle \<and> bgPopped s' = bgPopped s @ [Null] \<and>
         bgExecuted s' = bgExecuted s \<and> bgFinished s' = bgFinished s \<and>
         (\<exists>more. bgTasks s' = q @ more \<and> bgPushed s' = bgPushed s @ more)"
proof -
  define s1 where "s1 = setpc Worker Idle
    (s\<lparr>bgTasks := q, bgPopped := bgPopped s @ [Null], mutex := None\<rparr>)"
  from assms(1,2) have "step body Wk s = Some s1"
    by (simp add: s1_def dequeueBg_def)
  with assms(3) have e: "exec body es s1 = Some s'" by simp
  have i: "pcs s1 Worker = Idle" by (simp add: s1_def)
  from idle_worker_exec [OF e i] show ?thesis
    by (auto simp: s1_def bgExecuted_def callable_def)
qed

text \<open>
  A run without any shutdown: an empty function is submitted, the worker dequeues it,
  then task 7 is submitted and stays queued.
\<close>

lemma null_background_run:
  "\<exists>s s'. exec task5 [Invoke 0 (RunOnBgThread Null), Cl 0, Cl 0, Cl 0, Cl 0, Wk] init = Some s \<and>
     exec task5 [Wk, Invoke 0 (RunOnBgThread (Fn 7)), Cl 0, Cl 0, Cl 0, Cl 0] s = Some s' \<and>
     pcs s Worker = Locked \<and> bgTasks s = [Null] \<and> bgPopped s = [] \<and> bgPushed s = [Null] \<and>
     \<not> doneFlag s' \<and> bgPushed s' = [Null, Fn 7]"
  by (simp add: run_simps)

theorem null_background_task_stops_worker_witness:
  "\<exists>s s'. exec task5 [Invoke 0 (RunOnBgThread Null), Cl 0, Cl 0, Cl 0, Cl 0, Wk] init = Some s \<and>
     exec task5 [Wk, Invoke 0 (RunOnBgThread (Fn 7)), Cl 0, Cl 0, Cl 0, Cl 0] s = Some s' \<and>
     pcs s' Worker = Idle \<and> \<not> doneFlag s' \<and> bgTasks s' = [Fn 7] \<and> bgExecuted s' = [] \<and>
     bgPushed s' = [Null, Fn 7]"
proof -
  from null_background_run obtain s s' where
    s: "exec task5 [Invoke 0 (RunOnBgThread Null), Cl 0, Cl 0, Cl 0, Cl 0, Wk] init = Some s"
      "pcs s Worker = Locked" "bgTasks s = [Null]" "bgPopped s = []" "bgPushed s = [Null]" and
    s': "exec task5 [Wk, Invoke 0 (RunOnBgThread (Fn 7)), Cl 0, Cl 0, Cl 0, Cl 0] s = Some s'"
      "\<not> doneFlag s'" "bgPushed s' = [Null, Fn 7]"
    by blast
  from null_background_task_stops_worker [OF s(2,3) s'(1)] obtain more where
    c: "pcs s' Worker = Idle" "bgExecuted s' = bgExecuted s" "bgTasks s' = [] @ more"
      "bgPushed s' = bgPushed s @ more"
    by blast
  with s(4,5) s'(3) have "bgTasks s' = [Fn 7]" "bgExecuted s' = []"
    by (simp_all add: bgExecuted_def)
  with s(1) s' c(1) show ?thesis by blast
qed

subsection \<open>C9: an empty function in the main queue\<close>

text \<open>
  Claim C9. In a run in which \<^verbatim>\<open>runMainTasks\<close> is only ever called by the pump for a
  pending request: when \<^verbatim>\<open>dequeueMain\<close> finds an empty function at the front of the
  main queue, it pops it and the drain loop exits with the dispatch flag still set and
  no request pending. From then on, as long as nobody calls \<^verbatim>\<open>runMainTasks\<close> unasked,
  the flag stays set, every \<^verbatim>\<open>runOnMain\<close> is coalesced (the number of pump requests
  never changes), nothing more is popped or executed, and the submitted elements only
  lengthen the queue.
\<close>

theorem null_main_task_wedges_dispatch:
  assumes "exec body es0 init = Some s" "Stray \<notin> set es0"
    "pcs s MainCtx = Locked" "mainTasks s = Null # q"
    "exec body (Mn # es) s = Some s'" "Stray \<notin> set es"
  shows "pcs s' MainCtx = Idle \<and> scheduledToRunOnMain s' \<and>
         pumpRequests s' = pumpRequests s \<and> pumpPending s' = 0 \<and>
         mainPopped s' = mainPopped s @ [Null] \<and> mainExecuted s' = mainExecuted s \<and>
         mainFinished s' = mainFinished s \<and>
         (\<exists>more. mainTasks s' = q @ more \<and> mainPushed s' = mainPushed s @ more)"
proof -
  from oneDispatch_exec [OF assms(1) oneDispatch_init assms(2)] have o: "oneDispatch s" .
  with assms(3) have f: "scheduledToRunOnMain s" "pumpPending s = 0" "requesters s = {}"
    by (auto simp: oneDispatch_def split: if_splits)
  define s1 where "s1 = setpc MainCtx Idle
    (s\<lparr>mainTasks := q, mainPopped := mainPopped s @ [Null], mainMutex := None\<rparr>)"
  from assms(3,4) have "step body Mn s = Some s1"
    by (simp add: s1_def dequeueMain_def)
  with assms(5) have e: "exec body es s1 = Some s'" by simp
  from f(3) have "requesters s1 = {}"
    by (auto simp: requesters_def s1_def)
  with f(1,2) have w: "wedged s1"
    by (simp add: wedged_def s1_def)
  from wedged_exec [OF e w assms(6)] show ?thesis
    by (auto simp: s1_def wedged_def mainExecuted_def callable_def)
qed

text \<open>
  A run: an empty function is submitted to the main queue, the pump calls
  \<^verbatim>\<open>runMainTasks\<close>, which dequeues it; then task 3 is submitted and stays queued.
\<close>

lemma null_main_run:
  "\<exists>s s'. exec task5 [Invoke 0 (RunOnMain Null), Cl 0, Cl 0, Cl 0, Cl 0, Pump, Mn] init = Some s \<and>
     exec task5 [Mn, Invoke 0 (RunOnMain (Fn 3)), Cl 0, Cl 0, Cl 0] s = Some s' \<and>
     pcs s MainCtx = Locked \<and> mainTasks s = [Null] \<and> mainPushed s = [Null] \<and>
     mainPopped s = [] \<and> pumpRequests s = 1 \<and>
     pcs s' (Caller 0) = Idle \<and> mainPushed s' = [Null, Fn 3]"
  by (simp add: run_simps)

theorem null_main_task_wedges_dispatch_witness:
  "\<exists>s s'. exec task5 [Invoke 0 (RunOnMain Null), Cl 0, Cl 0, Cl 0, Cl 0, Pump, Mn] init = Some s \<and>
     exec task5 [Mn, Invoke 0 (RunOnMain (Fn 3)), Cl 0, Cl 0, Cl 0] s = Some s' \<and>
     pcs s' (Caller 0) = Idle \<and> pcs s' MainCtx = Idle \<and> scheduledToRunOnMain s' \<and>
     pumpRequests s' = 1 \<and> pumpPending s' = 0 \<and> mainTasks s' = [Fn 3] \<and>
     mainExecuted s' = []"
proof -
  from null_main_run obtain s s' where
    s: "exec task5 [Invoke 0 (RunOnMain Null), Cl 0, Cl 0, Cl 0, Cl 0, Pump, Mn] init = Some s"
      "pcs s MainCtx = Locked" "mainTasks s = [Null]" "mainPushed s = [Null]"
      "mainPopped s = []" "pumpRequests s = 1" and
    s': "exec task5 [Mn, Invoke 0 (RunOnMain (Fn 3)), Cl 0, Cl 0, Cl 0] s = Some s'"
      "pcs s' (Caller 0) = Idle" "mainPushed s' = [Null, Fn 3]"
    by blast
  have n: "Stray \<notin> set [Invoke 0 (RunOnMain Null), Cl 0, Cl 0, Cl 0, Cl 0, Pump, Mn]"
    "Stray \<notin> set [Invoke 0 (RunOnMain (Fn 3)), Cl 0, Cl 0, Cl 0]"
    by simp_all
  from null_main_task_wedges_dispatch [OF s(1) n(1) s(2,3) s'(1) n(2)] obtain more where
    c: "pcs s' MainCtx = Idle" "scheduledToRunOnMain s'" "pumpRequests s' = pumpRequests s"
      "pumpPending s' = 0" "mainExecuted s' = mainExecuted s" "mainTasks s' = [] @ more"
      "mainPushed s' = mainPushed s @ more"
    by blast
  with s(4,5,6) s'(3) have "mainTasks s' = [Fn 3]" "mainExecuted s' = []" "pumpRequests s' = 1"
    by (simp_all add: mainExecuted_def)
  with s(1) s'(1,2) c(1,2,4) show ?thesis by blast
qed

subsection \<open>C10: \<^verbatim>\<open>runMainTasks\<close> on an empty main queue\<close>

text \<open>
  Claim C10. When \<^verbatim>\<open>runMainTasks\<close> is called while the main queue is empty and runs
  without another thread touching the main queue, it returns after its first
  \<^verbatim>\<open>dequeueMain\<close>: the resulting state is the state before the call with the dispatch
  flag cleared (and, when the call honours a pending pump request, that request
  consumed). Both queues, the logs of popped elements and the counters of finished tasks
  are those of the state before the call, so no task was executed.
\<close>

theorem runMainTasks_empty_queue:
  assumes "pcs s MainCtx = Idle" "mainMutex s = None" "mainTasks s = []"
  shows "exec body [Stray, Mn, Mn] s = Some (s\<lparr>scheduledToRunOnMain := False\<rparr>) \<and>
         (0 < pumpPending s \<longrightarrow>
            exec body [Pump, Mn, Mn] s =
              Some (s\<lparr>scheduledToRunOnMain := False, pumpPending := pumpPending s - 1\<rparr>))"
proof -
  have "(pcs s)(MainCtx := Idle) = pcs s"
    using assms(1) by (simp add: fun_upd_idem)
  then show ?thesis
    using assms by (simp add: setpc_def dequeueMain_def)
qed

text \<open>
  A run in which one main task is submitted and a stray call of \<^verbatim>\<open>runMainTasks\<close> drains
  it; the pump request is then still pending and its call finds the queue empty.
\<close>

lemma duplicate_pump_state:
  "\<exists>s. exec task5 [Invoke 0 (RunOnMain (Fn 3)), Cl 0, Cl 0, Cl 0, Cl 0,
            Stray, Mn, Mn, Mn, Mn, Mn] init = Some s \<and>
       pcs s MainCtx = Idle \<and> mainMutex s = None \<and> mainTasks s = [] \<and>
       pumpPending s = 1 \<and> mainPopped s = [Fn 3]"
  by (simp add: run_simps)

theorem runMainTasks_empty_queue_witness:
  "\<exists>s. exec task5 [Invoke 0 (RunOnMain (Fn 3)), Cl 0, Cl 0, Cl 0, Cl 0,
            Stray, Mn, Mn, Mn, Mn, Mn] init = Some s \<and>
       mainTasks s = [] \<and> 0 < pumpPending s \<and>
       exec task5 [Stray, Mn, Mn] s = Some (s\<lparr>scheduledToRunOnMain := False\<rparr>) \<and>
       exec task5 [Pump, Mn, Mn] s =
         Some (s\<lparr>scheduledToRunOnMain := False, pumpPending := pumpPending s - 1\<rparr>)"
proof -
  from duplicate_pump_state obtain s where
    s: "exec task5 [Invoke 0 (RunOnMain (Fn 3)), Cl 0, Cl 0, Cl 0, Cl 0,
          Stray, Mn, Mn, Mn, Mn, Mn] init = Some s"
      "pcs s MainCtx = Idle" "mainMutex s = None" "mainTasks s = []" "pumpPending s = 1"
    by blast
  from runMainTasks_empty_queue [OF s(2,3,4), of task5] s(1,4,5) show ?thesis
    by auto
qed

end
